theory Spec2Isabelle
  imports Main "HOL-Library.Monad_Syntax" "HOL-Library.Mapping" "HOL-Library.AList_Mapping"
begin

unbundle bit_operations_syntax

section \<open>Machine integers\<close>

text \<open>
  Go's \<open>int64\<close> and \<open>int32\<close> are modelled as \<open>int\<close> with the two's-complement
  wrap-around written out; \<open>uint16\<close> is \<open>nat\<close> reduced modulo \<open>65536\<close>.
\<close>

definition wrap64 :: "int \<Rightarrow> int" where
  "wrap64 x = (x + 9223372036854775808) mod 18446744073709551616 - 9223372036854775808"

definition wrap32 :: "int \<Rightarrow> int" where
  "wrap32 x = (x + 2147483648) mod 4294967296 - 2147483648"

definition u16 :: "nat \<Rightarrow> nat" where
  "u16 n = n mod 65536"

text \<open>\<open>idx - 1\<close> on a \<open>uint16\<close>: zero wraps to 65535.\<close>

definition dec16 :: "nat \<Rightarrow> nat" where
  "dec16 i = (i + 65535) mod 65536"

section \<open>The node-indexed LRU list (package store, type cache)\<close>

text \<open>
  A node \<open>{k, v, expireAt}\<close>. The fields are named \<open>nk\<close>, \<open>nv\<close> here. A \<open>Value\<close> is
  a Go interface and may be \<open>nil\<close>, which is \<open>None\<close>.
\<close>

record 'v node =
  nk :: string
  nv :: "'v option"
  expireAt :: int

definition zero_node :: "'v node" where
  "zero_node = \<lparr>nk = [], nv = None, expireAt = 0\<rparr>"

text \<open>
  The struct \<open>cache\<close>: \<open>dlnk\<close> holds the (predecessor, successor) index pairs, \<open>cm\<close> is
  the node array \<open>m\<close>, \<open>hmap\<close> the key index and \<open>clast\<close> the field \<open>last\<close>.
\<close>

record 'v cache =
  dlnk :: "(nat \<times> nat) list"
  cm :: "'v node list"
  hmap :: "(string, nat) mapping"
  clast :: nat

text \<open>The package variables \<open>pre = 0\<close> and \<open>next = 1\<close> select a side of a link pair.\<close>

definition pre :: nat where
  "pre = 0"

definition nxt :: nat where
  "nxt = 1"

definition lk :: "nat \<times> nat \<Rightarrow> nat \<Rightarrow> nat" where
  "lk p s = (if s = 0 then fst p else snd p)"

definition lk_upd :: "nat \<times> nat \<Rightarrow> nat \<Rightarrow> nat \<Rightarrow> nat \<times> nat" where
  "lk_upd p s x = (if s = 0 then (x, snd p) else (fst p, x))"

text \<open>
  Slice accesses are bounds-checked in Go and panic out of range. A panic is \<open>None\<close>:
  every operation below returns an option, and \<open>None\<close> means that the call does not
  return normally.
\<close>

definition rd :: "(nat \<times> nat) list \<Rightarrow> nat \<Rightarrow> nat \<Rightarrow> nat option" where
  "rd d i s = (if i < length d then Some (lk (d ! i) s) else None)"

definition wr :: "(nat \<times> nat) list \<Rightarrow> nat \<Rightarrow> nat \<Rightarrow> nat \<Rightarrow> (nat \<times> nat) list option" where
  "wr d i s x = (if i < length d then Some (d[i := lk_upd (d ! i) s x]) else None)"

definition at :: "'a list \<Rightarrow> nat \<Rightarrow> 'a option" where
  "at xs i = (if i < length xs then Some (xs ! i) else None)"

definition Create :: "nat \<Rightarrow> 'v cache" where
  "Create cap = \<lparr>dlnk = replicate (u16 (cap + 1)) (0, 0),
                 cm = replicate cap zero_node,
                 hmap = Mapping.empty,
                 clast = 0\<rparr>"

text \<open>\<open>adjust(idx, front, tail)\<close>: unlink the node and relink it at one end.\<close>

definition adjust :: "'v cache \<Rightarrow> nat \<Rightarrow> nat \<Rightarrow> nat \<Rightarrow> 'v cache option" where
  "adjust c idx front tail = do {
     a \<leftarrow> rd (dlnk c) idx front;
     if a \<noteq> 0 then do {
       curPre \<leftarrow> rd (dlnk c) idx front;
       curNext \<leftarrow> rd (dlnk c) idx tail;
       x1 \<leftarrow> rd (dlnk c) idx front;
       d1 \<leftarrow> wr (dlnk c) curNext front x1;
       x2 \<leftarrow> rd d1 idx tail;
       d2 \<leftarrow> wr d1 curPre tail x2;
       d3 \<leftarrow> wr d2 idx front 0;
       x4 \<leftarrow> rd d3 0 tail;
       d4 \<leftarrow> wr d3 idx tail x4;
       x5 \<leftarrow> rd d4 0 tail;
       d5 \<leftarrow> wr d4 x5 front idx;
       d6 \<leftarrow> wr d5 0 tail idx;
       Some (c\<lparr>dlnk := d6\<rparr>)
     } else Some c
   }"

text \<open>
  The eviction callback \<open>func(string, Value)\<close> acts on the world outside the list; it is
  a function on a world state \<open>'w\<close>, and \<open>nil\<close> is \<open>None\<close>. The callback is taken not
  to touch the list it is called from.
\<close>

type_synonym ('v, 'w) callback = "string \<Rightarrow> 'v option \<Rightarrow> 'w \<Rightarrow> 'w"

text \<open>\<open>put\<close> returns 1 for an insertion and 0 for an update.\<close>

definition put ::
  "'v cache \<Rightarrow> string \<Rightarrow> 'v option \<Rightarrow> int \<Rightarrow> ('v, 'w) callback option \<Rightarrow> 'w
     \<Rightarrow> ('v cache \<times> 'w \<times> int) option" where
  "put c key val e onEv w =
     (case Mapping.lookup (hmap c) key of
        Some idx \<Rightarrow> do {
          n \<leftarrow> at (cm c) (dec16 idx);
          c2 \<leftarrow> adjust (c\<lparr>cm := (cm c)[dec16 idx := n\<lparr>nv := val, expireAt := e\<rparr>]\<rparr>) idx pre nxt;
          Some (c2, w, 0)
        }
      | None \<Rightarrow>
          if clast c = u16 (length (cm c)) then do {
            t \<leftarrow> rd (dlnk c) 0 pre;
            tl \<leftarrow> at (cm c) (dec16 t);
            let w1 = (case onEv of
                        Some f \<Rightarrow> if expireAt tl > 0 then f (nk tl) (nv tl) w else w
                      | None \<Rightarrow> w);
            c2 \<leftarrow> adjust (c\<lparr>hmap := Mapping.update key t (Mapping.delete (nk tl) (hmap c)),
                             cm := (cm c)[dec16 t := \<lparr>nk = key, nv = val, expireAt = e\<rparr>]\<rparr>)
                     t pre nxt;
            Some (c2, w1, 1)
          }
          else do {
            let l = u16 (clast c + 1);
            d1 \<leftarrow> (if Mapping.is_empty (hmap c) then wr (dlnk c) 0 pre l
                   else do { h \<leftarrow> rd (dlnk c) 0 nxt; wr (dlnk c) h pre l });
            _ \<leftarrow> at (cm c) (dec16 l);
            h0 \<leftarrow> rd d1 0 nxt;
            d2 \<leftarrow> (if l < length d1 then Some (d1[l := (0, h0)]) else None);
            d3 \<leftarrow> wr d2 0 nxt l;
            Some (c\<lparr>dlnk := d3,
                    cm := (cm c)[dec16 l := \<lparr>nk = key, nv = val, expireAt = e\<rparr>],
                    hmap := Mapping.update key l (hmap c),
                    clast := l\<rparr>, w, 1)
          })"

text \<open>\<open>get\<close> returns the node (a copy of the slot) and the status.\<close>

definition get :: "'v cache \<Rightarrow> string \<Rightarrow> ('v cache \<times> 'v node option \<times> int) option" where
  "get c key =
     (case Mapping.lookup (hmap c) key of
        Some idx \<Rightarrow> do {
          c1 \<leftarrow> adjust c idx pre nxt;
          n \<leftarrow> at (cm c1) (dec16 idx);
          Some (c1, Some n, 1)
        }
      | None \<Rightarrow> Some (c, None, 0))"

text \<open>\<open>del\<close> tombstones a live node and moves it to the tail.\<close>

definition del :: "'v cache \<Rightarrow> string \<Rightarrow> ('v cache \<times> 'v node option \<times> int \<times> int) option" where
  "del c key =
     (case Mapping.lookup (hmap c) key of
        Some idx \<Rightarrow> do {
          n \<leftarrow> at (cm c) (dec16 idx);
          if expireAt n > 0 then do {
            c2 \<leftarrow> adjust (c\<lparr>cm := (cm c)[dec16 idx := n\<lparr>expireAt := 0\<rparr>]\<rparr>) idx nxt pre;
            Some (c2, Some (n\<lparr>expireAt := 0\<rparr>), 1, expireAt n)
          } else Some (c, None, 0, 0)
        }
      | None \<Rightarrow> Some (c, None, 0, 0))"

text \<open>
  \<open>walk\<close> follows the successor links from the head until it is back at the sentinel.
  The links of an ill-formed list may form a cycle, and then the loop never ends: it
  is a partial function, and \<open>None\<close> also stands for a walk that does not return. The
  visitor is a Go closure that updates captured variables; here it updates an
  accumulator and returns whether to go on.
\<close>

type_synonym ('v, 'a) walker = "string \<Rightarrow> 'v option \<Rightarrow> int \<Rightarrow> 'a \<Rightarrow> 'a \<times> bool"

partial_function (option) walk_from ::
  "'v cache \<Rightarrow> ('v, 'a) walker \<Rightarrow> nat \<Rightarrow> 'a \<Rightarrow> 'a option" where
  "walk_from c walker idx acc =
     (if idx = 0 then Some acc
      else case at (cm c) (dec16 idx) of
             None \<Rightarrow> None
           | Some n \<Rightarrow>
               if expireAt n > 0 \<and> \<not> snd (walker (nk n) (nv n) (expireAt n) acc)
               then Some (fst (walker (nk n) (nv n) (expireAt n) acc))
               else (case rd (dlnk c) idx nxt of
                       None \<Rightarrow> None
                     | Some j \<Rightarrow>
                         walk_from c walker j
                           (if expireAt n > 0 then fst (walker (nk n) (nv n) (expireAt n) acc)
                            else acc)))"

declare walk_from.simps [code]

definition walk :: "'v cache \<Rightarrow> ('v, 'a) walker \<Rightarrow> 'a \<Rightarrow> 'a option" where
  "walk c walker acc = do { h \<leftarrow> rd (dlnk c) 0 nxt; walk_from c walker h acc }"

section \<open>Hashing\<close>

text \<open>
  \<open>hashBKRD\<close> folds the bytes of the key into an \<open>int32\<close>; the store calls it under the
  name \<open>hashBKDR\<close>.
\<close>

definition hashBKRD :: "string \<Rightarrow> int" where
  "hashBKRD s = fold (\<lambda>ch hash. wrap32 (wrap32 (hash * 131) + int (of_char ch))) s 0"

definition maskOfNextPowOf2 :: "nat \<Rightarrow> nat" where
  "maskOfNextPowOf2 cap =
     (if cap > 0 \<and> cap AND (cap - 1) = 0 then cap - 1
      else let c1 = cap OR drop_bit 1 cap;
               c2 = c1 OR drop_bit 2 c1;
               c3 = c2 OR drop_bit 4 c2
           in c3 OR drop_bit 8 c3)"

section \<open>The sharded two-tier store (type lru2Store)\<close>

text \<open>
  Each shard is the pair \<open>[2]*cache\<close> of L1 and L2. The field \<open>mask\<close> is \<open>smask\<close>. Every
  operation holds the lock of its shard from start to end, so an operation is one
  atomic function on the store; the locks and the ticker are not part of the state.
  The world state threaded through is the one the eviction callback acts on.
\<close>

record ('v, 'w) lru2Store =
  caches :: "('v cache \<times> 'v cache) list"
  onEvicted :: "('v, 'w) callback option"
  smask :: int

record ('v, 'w) Options =
  BucketCount :: nat
  CapPerBucket :: nat
  Level2Cap :: nat
  CleanupInterval :: int
  OnEvicted :: "('v, 'w) callback option"

definition newLRU2Cache :: "('v, 'w) Options \<Rightarrow> ('v, 'w) lru2Store" where
  "newLRU2Cache opts =
     (let bucketCount = (if BucketCount opts = 0 then 16 else BucketCount opts);
          capPerBucket = (if CapPerBucket opts = 0 then 1024 else CapPerBucket opts);
          level2Cap = (if Level2Cap opts = 0 then 1024 else Level2Cap opts);
          mark = maskOfNextPowOf2 bucketCount
      in \<lparr>caches = replicate (u16 (mark + 1)) (Create capPerBucket, Create level2Cap),
          onEvicted = OnEvicted opts,
          smask = int mark\<rparr>)"

text \<open>\<open>s.caches[idx]\<close> with an \<open>int32\<close> index.\<close>

definition shard_at :: "('v, 'w) lru2Store \<Rightarrow> int \<Rightarrow> ('v cache \<times> 'v cache) option" where
  "shard_at s idx = (if 0 \<le> idx \<and> nat idx < length (caches s) then Some (caches s ! nat idx) else None)"

definition shard_upd ::
  "('v, 'w) lru2Store \<Rightarrow> int \<Rightarrow> 'v cache \<times> 'v cache \<Rightarrow> ('v, 'w) lru2Store" where
  "shard_upd s idx p = s\<lparr>caches := (caches s)[nat idx := p]\<rparr>"

text \<open>The private \<open>delete(key, idx)\<close>.\<close>

definition delete ::
  "('v, 'w) lru2Store \<Rightarrow> string \<Rightarrow> int \<Rightarrow> 'w \<Rightarrow> (('v, 'w) lru2Store \<times> 'w \<times> bool) option" where
  "delete s key idx w = do {
     (c0, c1) \<leftarrow> shard_at s idx;
     (c0', n1, s1, _) \<leftarrow> del c0 key;
     (c1', n2, s2, _) \<leftarrow> del c1 key;
     let deleted = (s1 > 0 \<or> s2 > 0);
     let w' = (case onEvicted s of
                 None \<Rightarrow> w
               | Some f \<Rightarrow>
                   if deleted then
                     (case n1 of
                        Some a \<Rightarrow>
                          (case nv a of
                             Some x \<Rightarrow> f key (Some x) w
                           | None \<Rightarrow>
                               (case n2 of
                                  Some b \<Rightarrow> (case nv b of Some y \<Rightarrow> f key (Some y) w | None \<Rightarrow> w)
                                | None \<Rightarrow> w))
                      | None \<Rightarrow>
                          (case n2 of
                             Some b \<Rightarrow> (case nv b of Some y \<Rightarrow> f key (Some y) w | None \<Rightarrow> w)
                           | None \<Rightarrow> w))
                   else w);
     Some (shard_upd s idx (c0', c1'), w', deleted)
   }"

text \<open>
  \<open>_get(key, idx, level)\<close>, named \<open>get_level\<close> here; \<open>now\<close> is the clock reading it
  takes.
\<close>

definition get_level ::
  "('v, 'w) lru2Store \<Rightarrow> string \<Rightarrow> int \<Rightarrow> nat \<Rightarrow> int
     \<Rightarrow> (('v, 'w) lru2Store \<times> 'v node option \<times> int) option" where
  "get_level s key idx level now = do {
     (c0, c1) \<leftarrow> shard_at s idx;
     if level = 0 then do {
       (c', n, st) \<leftarrow> get c0 key;
       (case n of
          Some a \<Rightarrow>
            if st > 0 then
              (if expireAt a \<le> 0 \<or> now \<ge> expireAt a then Some (shard_upd s idx (c', c1), None, 0)
               else Some (shard_upd s idx (c', c1), Some a, st))
            else Some (shard_upd s idx (c', c1), None, 0)
        | None \<Rightarrow> Some (shard_upd s idx (c', c1), None, 0))
     } else if level = 1 then do {
       (c', n, st) \<leftarrow> get c1 key;
       (case n of
          Some a \<Rightarrow>
            if st > 0 then
              (if expireAt a \<le> 0 \<or> now \<ge> expireAt a then Some (shard_upd s idx (c0, c'), None, 0)
               else Some (shard_upd s idx (c0, c'), Some a, st))
            else Some (shard_upd s idx (c0, c'), None, 0)
        | None \<Rightarrow> Some (shard_upd s idx (c0, c'), None, 0))
     } else None
   }"

text \<open>
  \<open>Get\<close> reads the clock twice: \<open>currentTime\<close> at its start and \<open>now2\<close> inside \<open>_get\<close>.
  \<open>Get_level2\<close> is the part of \<open>Get\<close> after the L1 lookup (steps 3 and 4).
\<close>

definition Get_level2 ::
  "('v, 'w) lru2Store \<Rightarrow> string \<Rightarrow> int \<Rightarrow> int \<Rightarrow> int \<Rightarrow> 'w
     \<Rightarrow> (('v, 'w) lru2Store \<times> 'w \<times> 'v option \<times> bool) option" where
  "Get_level2 s key idx currentTime now2 w = do {
     (s2, n2, status2) \<leftarrow> get_level s key idx 1 now2;
     (case n2 of
        Some b \<Rightarrow>
          if status2 > 0 then
            (if expireAt b > 0 \<and> currentTime \<ge> expireAt b then do {
               (s3, w3, _) \<leftarrow> delete s2 key idx w;
               Some (s3, w3, None, False)
             } else Some (s2, w, nv b, True))
          else Some (s2, w, None, False)
      | None \<Rightarrow> Some (s2, w, None, False))
   }"

definition Get ::
  "('v, 'w) lru2Store \<Rightarrow> string \<Rightarrow> int \<Rightarrow> int \<Rightarrow> 'w
     \<Rightarrow> (('v, 'w) lru2Store \<times> 'w \<times> 'v option \<times> bool) option" where
  "Get s key currentTime now2 w = do {
     let idx = hashBKRD key AND smask s;
     (c0, c1) \<leftarrow> shard_at s idx;
     (c0', n1, status1, e) \<leftarrow> del c0 key;
     if status1 > 0 then
       (if e > 0 \<and> currentTime \<ge> e then do {
          (s2, w2, _) \<leftarrow> delete (shard_upd s idx (c0', c1)) key idx w;
          Some (s2, w2, None, False)
        } else do {
          a \<leftarrow> n1;
          (c1', w1, _) \<leftarrow> put c1 key (nv a) e (onEvicted s) w;
          Get_level2 (shard_upd s idx (c0', c1')) key idx currentTime now2 w1
        })
     else Get_level2 (shard_upd s idx (c0', c1)) key idx currentTime now2 w
   }"

text \<open>
  \<open>SetWithExpiration\<close>; \<open>expiration\<close> is the duration in nanoseconds and \<open>now\<close> the clock
  reading. The Go function always returns a nil error, so only the state is returned.
\<close>

definition SetWithExpiration ::
  "('v, 'w) lru2Store \<Rightarrow> string \<Rightarrow> 'v option \<Rightarrow> int \<Rightarrow> int \<Rightarrow> 'w
     \<Rightarrow> (('v, 'w) lru2Store \<times> 'w) option" where
  "SetWithExpiration s key val expiration now w = do {
     let e = (if expiration > 0 then wrap64 (now + expiration) else 0);
     let idx = hashBKRD key AND smask s;
     (c0, c1) \<leftarrow> shard_at s idx;
     (c0', w', _) \<leftarrow> put c0 key val e (onEvicted s) w;
     Some (shard_upd s idx (c0', c1), w')
   }"

definition Set ::
  "('v, 'w) lru2Store \<Rightarrow> string \<Rightarrow> 'v option \<Rightarrow> int \<Rightarrow> 'w
     \<Rightarrow> (('v, 'w) lru2Store \<times> 'w) option" where
  "Set s key val now w = SetWithExpiration s key val 9999999999999999 now w"

definition Delete ::
  "('v, 'w) lru2Store \<Rightarrow> string \<Rightarrow> 'w \<Rightarrow> (('v, 'w) lru2Store \<times> 'w \<times> bool) option" where
  "Delete s key w = delete s key (hashBKRD key AND smask s) w"

text \<open>\<open>Len\<close> walks both tiers of every shard with a visitor that counts.\<close>

definition count_walker :: "('v, int) walker" where
  "count_walker key val e count = (count + 1, True)"

fun Len_loop :: "('v cache \<times> 'v cache) list \<Rightarrow> int \<Rightarrow> int option" where
  "Len_loop [] count = Some count"
| "Len_loop (p # ps) count = do {
     n0 \<leftarrow> walk (fst p) count_walker count;
     n1 \<leftarrow> walk (snd p) count_walker n0;
     Len_loop ps n1
   }"

definition Len :: "('v, 'w) lru2Store \<Rightarrow> int option" where
  "Len s = Len_loop (caches s) 0"

section \<open>Well-formed lists and liveness\<close>

text \<open>
  The state a list must be in for its operations to stay within the arrays: the link
  array is one longer than the node array, every link and every index of the key map
  points inside, and a list that has ever been filled has a tail. \<open>Create\<close> establishes
  it for capacities from 1 to 65534, and \<open>put\<close>, \<open>get\<close> and \<open>del\<close> preserve it.
\<close>

definition links_ok :: "(nat \<times> nat) list \<Rightarrow> bool" where
  "links_ok d = (d \<noteq> [] \<and> (\<forall>p \<in> set d. fst p < length d \<and> snd p < length d))"

definition cache_ok :: "'v cache \<Rightarrow> bool" where
  "cache_ok c =
     (links_ok (dlnk c) \<and> length (dlnk c) = length (cm c) + 1
      \<and> 1 \<le> length (cm c) \<and> length (cm c) < 65535
      \<and> clast c \<le> length (cm c)
      \<and> (\<forall>k \<in> Mapping.keys (hmap c).
            case Mapping.lookup (hmap c) k of None \<Rightarrow> True | Some i \<Rightarrow> 1 \<le> i \<and> i \<le> clast c)
      \<and> (1 \<le> clast c \<longrightarrow> fst (dlnk c ! 0) \<noteq> 0))"

text \<open>The slot a key is mapped to, and whether that slot is live (\<open>expireAt > 0\<close>).\<close>

definition slot :: "'v cache \<Rightarrow> string \<Rightarrow> 'v node option" where
  "slot c key = (case Mapping.lookup (hmap c) key of None \<Rightarrow> None | Some i \<Rightarrow> at (cm c) (dec16 i))"

definition live :: "'v cache \<Rightarrow> string \<Rightarrow> bool" where
  "live c key = (case slot c key of None \<Rightarrow> False | Some n \<Rightarrow> expireAt n > 0)"

definition store_ok :: "('v, 'w) lru2Store \<Rightarrow> bool" where
  "store_ok s =
     (0 \<le> smask s \<and> nat (smask s) < length (caches s)
      \<and> (\<forall>p \<in> set (caches s). cache_ok (fst p) \<and> cache_ok (snd p)))"

definition shard_of :: "('v, 'w) lru2Store \<Rightarrow> string \<Rightarrow> nat" where
  "shard_of s key = nat (hashBKRD key AND smask s)"

definition L1 :: "('v, 'w) lru2Store \<Rightarrow> string \<Rightarrow> 'v cache" where
  "L1 s key = fst (caches s ! shard_of s key)"

definition L2 :: "('v, 'w) lru2Store \<Rightarrow> string \<Rightarrow> 'v cache" where
  "L2 s key = snd (caches s ! shard_of s key)"

text \<open>The value \<open>delete\<close> hands to the callback: that of a live L1 copy, else of a live L2 copy.\<close>

definition live_val :: "'v cache \<Rightarrow> string \<Rightarrow> 'v option" where
  "live_val c key = (case slot c key of None \<Rightarrow> None | Some n \<Rightarrow> if expireAt n > 0 then nv n else None)"

definition evict_val :: "('v, 'w) lru2Store \<Rightarrow> string \<Rightarrow> 'v option" where
  "evict_val s key =
     (case live_val (L1 s key) key of Some x \<Rightarrow> Some x | None \<Rightarrow> live_val (L2 s key) key)"

text \<open>The \<open>expireAt\<close> that \<open>Set\<close> stores when the clock reads \<open>now\<close>.\<close>

definition Set_expireAt :: "int \<Rightarrow> int" where
  "Set_expireAt now = wrap64 (now + 9999999999999999)"

text \<open>The node at the tail of the list, the one \<open>put\<close> reclaims when the list is full.\<close>

definition tail_node :: "'v cache \<Rightarrow> 'v node" where
  "tail_node c = cm c ! (fst (dlnk c ! 0) - 1)"

section \<open>The internal clock\<close>

text \<open>
  The goroutine started by \<open>init\<close>: it stores the wall clock, then nine times sleeps
  100ms and adds 100ms, sleeps once more and returns. One step is one statement
  together with the sleep before it; \<open>wall\<close> is the wall-clock time a step would read.
\<close>

datatype upc = Calibrate | Loop nat | Exited

record updater =
  pc :: upc
  clock :: int

definition updater_step :: "int \<Rightarrow> updater \<Rightarrow> updater" where
  "updater_step wall u =
     (case pc u of
        Calibrate \<Rightarrow> \<lparr>pc = Loop 0, clock = wall\<rparr>
      | Loop i \<Rightarrow>
          if i < 9 then \<lparr>pc = Loop (i + 1), clock = wrap64 (clock u + 100000000)\<rparr>
          else u\<lparr>pc := Exited\<rparr>
      | Exited \<Rightarrow> u)"

text \<open>
  The updater after \<open>n\<close> steps, from the initial value \<open>c0\<close> of the package variable
  \<open>clock\<close>; \<open>Now\<close> reads the variable.
\<close>

primrec updater_after :: "(nat \<Rightarrow> int) \<Rightarrow> int \<Rightarrow> nat \<Rightarrow> updater" where
  "updater_after wall c0 0 = \<lparr>pc = Calibrate, clock = c0\<rparr>"
| "updater_after wall c0 (Suc n) = updater_step (wall n) (updater_after wall c0 n)"

definition Now :: "updater \<Rightarrow> int" where
  "Now u = clock u"

section \<open>The deduplication group (package singleflight)\<close>

text \<open>
  A \<open>call\<close> has the counter of its wait group and the stored result; \<open>nil\<close> is \<open>None\<close>.
  Calls live on a heap, the list \<open>calls\<close>, and a pointer to a call is its index there.
  The \<open>sync.Map\<close> of the group is \<open>gm\<close>.

  Goroutines are interleaved at the operations on shared state: every \<open>Load\<close>, \<open>Store\<close>,
  \<open>LoadOrStore\<close> and \<open>Delete\<close> of the map, every \<open>Done\<close>, and the call of \<open>fn\<close> is one
  atomic step of the goroutine that makes it. A goroutine in \<open>Wait\<close> can only step once
  the counter is zero. \<open>fn\<close> acts on a world state and returns its value and error.
\<close>

record ('v, 'e) call =
  cwg :: nat
  cval :: "'v option"
  cerr :: "'e option"

datatype label =
    Do_Load | Do_Store | Do_Fn | Do_Done | Do_Delete | Do_Return
  | V2_LoadOrStore | V2_Fn | V2_Return | V2_Delete | V2_Done
  | Waiting | Finished

record ('v, 'e, 'w) thread =
  tkey :: string
  tfn :: "'w \<Rightarrow> ('v option \<times> 'e option) \<times> 'w"
  tpc :: label
  tc :: nat
  tret :: "('v option \<times> 'e option) option"

record ('v, 'e, 'w) group =
  gm :: "(string, nat) mapping"
  calls :: "('v, 'e) call list"
  threads :: "('v, 'e, 'w) thread list"
  world :: 'w

definition new_call :: "('v, 'e) call" where
  "new_call = \<lparr>cwg = 1, cval = None, cerr = None\<rparr>"

text \<open>The call a goroutine's local pointer \<open>c\<close> refers to.\<close>

definition cur :: "('v, 'e, 'w) group \<Rightarrow> ('v, 'e, 'w) thread \<Rightarrow> ('v, 'e) call" where
  "cur g t = calls g ! tc t"

text \<open>One step of goroutine \<open>i\<close>; a goroutine that is blocked or has returned does nothing.\<close>

definition step :: "nat \<Rightarrow> ('v, 'e, 'w) group \<Rightarrow> ('v, 'e, 'w) group" where
  "step i g =
     (if i < length (threads g) then
        (let t = threads g ! i in
         case tpc t of
           Do_Load \<Rightarrow>
             (case Mapping.lookup (gm g) (tkey t) of
                Some a \<Rightarrow> g\<lparr>threads := (threads g)[i := t\<lparr>tc := a, tpc := Waiting\<rparr>]\<rparr>
              | None \<Rightarrow> g\<lparr>threads := (threads g)[i := t\<lparr>tpc := Do_Store\<rparr>]\<rparr>)
         | Do_Store \<Rightarrow>
             g\<lparr>gm := Mapping.update (tkey t) (length (calls g)) (gm g),
               calls := calls g @ [new_call],
               threads := (threads g)[i := t\<lparr>tc := length (calls g), tpc := Do_Fn\<rparr>]\<rparr>
         | Do_Fn \<Rightarrow>
             g\<lparr>calls := (calls g)[tc t := (cur g t)\<lparr>cval := fst (fst (tfn t (world g))),
                                             cerr := snd (fst (tfn t (world g)))\<rparr>],
               world := snd (tfn t (world g)),
               threads := (threads g)[i := t\<lparr>tpc := Do_Done\<rparr>]\<rparr>
         | Do_Done \<Rightarrow>
             g\<lparr>calls := (calls g)[tc t := (cur g t)\<lparr>cwg := cwg (cur g t) - 1\<rparr>],
               threads := (threads g)[i := t\<lparr>tpc := Do_Delete\<rparr>]\<rparr>
         | Do_Delete \<Rightarrow>
             g\<lparr>gm := Mapping.delete (tkey t) (gm g),
               threads := (threads g)[i := t\<lparr>tpc := Do_Return\<rparr>]\<rparr>
         | Do_Return \<Rightarrow>
             g\<lparr>threads := (threads g)[i := t\<lparr>tret := Some (cval (cur g t), cerr (cur g t)), tpc := Finished\<rparr>]\<rparr>
         | V2_LoadOrStore \<Rightarrow>
             (case Mapping.lookup (gm g) (tkey t) of
                Some a \<Rightarrow>
                  g\<lparr>calls := calls g @ [new_call],
                    threads := (threads g)[i := t\<lparr>tc := a, tpc := Waiting\<rparr>]\<rparr>
              | None \<Rightarrow>
                  g\<lparr>gm := Mapping.update (tkey t) (length (calls g)) (gm g),
                    calls := calls g @ [new_call],
                    threads := (threads g)[i := t\<lparr>tc := length (calls g), tpc := V2_Fn\<rparr>]\<rparr>)
         | V2_Fn \<Rightarrow>
             g\<lparr>calls := (calls g)[tc t := (cur g t)\<lparr>cval := fst (fst (tfn t (world g))),
                                             cerr := snd (fst (tfn t (world g)))\<rparr>],
               world := snd (tfn t (world g)),
               threads := (threads g)[i := t\<lparr>tpc := V2_Return\<rparr>]\<rparr>
         | V2_Return \<Rightarrow>
             g\<lparr>threads := (threads g)[i := t\<lparr>tret := Some (cval (cur g t), cerr (cur g t)), tpc := V2_Delete\<rparr>]\<rparr>
         | V2_Delete \<Rightarrow>
             g\<lparr>gm := Mapping.delete (tkey t) (gm g),
               threads := (threads g)[i := t\<lparr>tpc := V2_Done\<rparr>]\<rparr>
         | V2_Done \<Rightarrow>
             g\<lparr>calls := (calls g)[tc t := (cur g t)\<lparr>cwg := cwg (cur g t) - 1\<rparr>],
               threads := (threads g)[i := t\<lparr>tpc := Finished\<rparr>]\<rparr>
         | Waiting \<Rightarrow>
             if cwg (cur g t) = 0
             then g\<lparr>threads := (threads g)[i := t\<lparr>tret := Some (cval (cur g t), cerr (cur g t)), tpc := Finished\<rparr>]\<rparr>
             else g
         | Finished \<Rightarrow> g)
      else g)"

text \<open>A schedule is the list of the goroutines that step, in order.\<close>

definition run :: "nat list \<Rightarrow> ('v, 'e, 'w) group \<Rightarrow> ('v, 'e, 'w) group" where
  "run sched g = fold step sched g"

text \<open>A caller that enters \<open>Do\<close> or \<open>DoV2\<close> with a key and a function.\<close>

definition caller ::
  "label \<Rightarrow> string \<Rightarrow> ('w \<Rightarrow> ('v option \<times> 'e option) \<times> 'w) \<Rightarrow> ('v, 'e, 'w) thread" where
  "caller entry key fn = \<lparr>tkey = key, tfn = fn, tpc = entry, tc = 0, tret = None\<rparr>"










section \<open>Concrete inputs\<close>

text \<open>An eviction callback that appends its arguments to a log.\<close>

definition log_evict :: "('v, (string \<times> 'v option) list) callback" where
  "log_evict k v w = w @ [(k, v)]"

text \<open>A store of one shard whose two tiers hold one entry each.\<close>

definition small_store :: "(nat, (string \<times> nat option) list) lru2Store" where
  "small_store = newLRU2Cache \<lparr>BucketCount = 1, CapPerBucket = 1, Level2Cap = 1,
                               CleanupInterval = 0, OnEvicted = Some log_evict\<rparr>"

text \<open>A computation that counts its executions and returns the count.\<close>

definition counting :: "nat \<Rightarrow> (nat option \<times> string option) \<times> nat" where
  "counting w = ((Some (w + 1), None), w + 1)"

definition two_callers :: "label \<Rightarrow> (nat, string, nat) group" where
  "two_callers entry = \<lparr>gm = Mapping.empty, calls = [],
                         threads = [caller entry ''k'' counting, caller entry ''k'' counting],
                         world = 0\<rparr>"

text \<open>
  The schedule in which the two callers take turns, one step each: both make their first
  step before either goes on.
\<close>

definition alternating :: "nat list" where
  "alternating = [0, 1, 0, 1, 0, 1, 0, 1, 0, 1, 0, 1]"



text \<open>A list of capacity one that is full.\<close>

definition full_list :: "nat cache" where
  "full_list = \<lparr>dlnk = [(1, 1), (0, 0)],
                 cm = [\<lparr>nk = ''a'', nv = Some 1, expireAt = 5\<rparr>],
                 hmap = Mapping.update ''a'' 1 Mapping.empty,
                 clast = 1\<rparr>"

text \<open>
  The small store with one entry for the key \<open>a\<close> in L1: the state a \<open>Set\<close> of \<open>a\<close> on the empty
  small store leaves.
\<close>

definition one_entry_list :: "nat option \<Rightarrow> int \<Rightarrow> nat cache" where
  "one_entry_list v e = \<lparr>dlnk = [(1, 1), (0, 0)],
                          cm = [\<lparr>nk = ''a'', nv = v, expireAt = e\<rparr>],
                          hmap = Mapping.update ''a'' 1 Mapping.empty,
                          clast = 1\<rparr>"

definition one_entry_store :: "nat option \<Rightarrow> int \<Rightarrow> (nat, (string \<times> nat option) list) lru2Store" where
  "one_entry_store v e = \<lparr>caches = [(one_entry_list v e, Create 1)],
                           onEvicted = Some log_evict,
                           smask = 0\<rparr>"

text \<open>The small store with an entry for the key \<open>a\<close> in both tiers.\<close>

definition two_tier_store ::
  "nat option \<Rightarrow> int \<Rightarrow> nat option \<Rightarrow> int \<Rightarrow> (nat, (string \<times> nat option) list) lru2Store" where
  "two_tier_store v1 e1 v2 e2 = \<lparr>caches = [(one_entry_list v1 e1, one_entry_list v2 e2)],
                                  onEvicted = Some log_evict,
                                  smask = 0\<rparr>"

text \<open>\<open>Set\<close> of a nil value, then \<open>Delete\<close>: the log of the callback and the result.\<close>

definition delete_nil_run :: "((string \<times> nat option) list \<times> bool) option" where
  "delete_nil_run = do {
     (s1, w1) \<leftarrow> Set small_store ''a'' None 100 [];
     (s2, w2, r) \<leftarrow> Delete s1 ''a'' w1;
     Some (w2, r)
   }"

text \<open>
  \<open>SetWithExpiration\<close> with a zero expiration, then \<open>Get\<close>: the stored \<open>expireAt\<close> and the
  result of the \<open>Get\<close>.
\<close>

definition zero_expiration_run :: "(int option \<times> nat option \<times> bool) option" where
  "zero_expiration_run = do {
     (s1, w1) \<leftarrow> SetWithExpiration small_store ''a'' (Some 7) 0 100 [];
     (s2, w2, r) \<leftarrow> Get s1 ''a'' 100 100 w1;
     Some (map_option expireAt (slot (L1 s1 ''a'') ''a''), r)
   }"

text \<open>
  An entry that expires at 105 is promoted to L2 at time 101 and read again at time 200:
  the results of the two reads, the liveness of the key in L1 and L2 afterwards, the
  length of the store and the log of the callback.
\<close>

definition expired_l2_run ::
  "((nat option \<times> bool) \<times> (nat option \<times> bool) \<times> bool \<times> bool \<times> int \<times> (string \<times> nat option) list) option" where
  "expired_l2_run = do {
     (s1, w1) \<leftarrow> SetWithExpiration small_store ''a'' (Some 7) 5 100 [];
     (s2, w2, r2) \<leftarrow> Get s1 ''a'' 101 101 w1;
     (s3, w3, r3) \<leftarrow> Get s2 ''a'' 200 200 w2;
     n \<leftarrow> Len s3;
     Some (r2, r3, live (L1 s3 ''a'') ''a'', live (L2 s3 ''a'') ''a'', n, w3)
   }"

section \<open>The list operations stay within the arrays\<close>

lemma cache_ok_alt:
  "cache_ok c =
     (links_ok (dlnk c) \<and> length (dlnk c) = length (cm c) + 1
      \<and> 1 \<le> length (cm c) \<and> length (cm c) < 65535
      \<and> clast c \<le> length (cm c)
      \<and> (\<forall>k i. Mapping.lookup (hmap c) k = Some i \<longrightarrow> 1 \<le> i \<and> i \<le> clast c)
      \<and> (1 \<le> clast c \<longrightarrow> fst (dlnk c ! 0) \<noteq> 0))"
proof -
  have "(\<forall>k \<in> Mapping.keys (hmap c).
            case Mapping.lookup (hmap c) k of None \<Rightarrow> True | Some i \<Rightarrow> 1 \<le> i \<and> i \<le> clast c)
        \<longleftrightarrow> (\<forall>k i. Mapping.lookup (hmap c) k = Some i \<longrightarrow> 1 \<le> i \<and> i \<le> clast c)"
    by (auto simp: keys_dom_lookup split: option.splits)
  then show ?thesis by (simp add: cache_ok_def)
qed

lemma links_ok_pos: "links_ok d \<Longrightarrow> 0 < length d"
  by (simp add: links_ok_def)

lemma rd_okE:
  assumes "links_ok d" "i < length d"
  obtains x where "rd d i s = Some x" "x < length d" "x = lk (d ! i) s"
  using assms by (auto simp: links_ok_def rd_def lk_def)

lemma links_ok_update:
  assumes "links_ok d" "fst q < length d" "snd q < length d"
  shows "links_ok (d[i := q])"
proof -
  have "\<And>p. p \<in> set (d[i := q]) \<Longrightarrow> p = q \<or> p \<in> set d"
    using set_update_subset_insert[of d i q] by auto
  then show ?thesis using assms by (auto simp: links_ok_def)
qed

lemma wr_okE:
  assumes "links_ok d" "i < length d" "x < length d"
  obtains d' where "wr d i s x = Some d'" "links_ok d'" "length d' = length d"
    "d' = d[i := lk_upd (d ! i) s x]"
proof -
  have "fst (d ! i) < length d" "snd (d ! i) < length d"
    using assms(1,2) by (auto simp: links_ok_def)
  then have "links_ok (d[i := lk_upd (d ! i) s x])"
    using assms by (intro links_ok_update) (auto simp: lk_upd_def)
  then show ?thesis using that assms(2) by (simp add: wr_def)
qed

lemma wr_fst0:
  assumes "wr d j s x = Some d'" "fst (d ! 0) \<noteq> 0" "j \<noteq> 0 \<or> x \<noteq> 0"
  shows "fst (d' ! 0) \<noteq> 0"
  using assms by (auto simp: wr_def lk_upd_def nth_list_update split: if_splits)

lemma adjust_ok:
  assumes ok: "links_ok (dlnk c)" and i: "idx < length (dlnk c)"
  shows "\<exists>d'. adjust c idx f t = Some (c\<lparr>dlnk := d'\<rparr>) \<and> links_ok d' \<and> length d' = length (dlnk c)
           \<and> (idx \<noteq> 0 \<and> fst (dlnk c ! 0) \<noteq> 0 \<longrightarrow> fst (d' ! 0) \<noteq> 0)"
proof -
  let ?d = "dlnk c"
  have z: "0 < length ?d" using ok by (rule links_ok_pos)
  obtain a where a: "rd ?d idx f = Some a" "a < length ?d"
    by (rule rd_okE[OF ok i])
  show ?thesis
  proof (cases "a = 0")
    case True
    then show ?thesis using a assms by (auto simp: adjust_def intro: exI[of _ "dlnk c"])
  next
    case False
    obtain b where b: "rd ?d idx t = Some b" "b < length ?d"
      by (rule rd_okE[OF ok i])
    obtain d1 where d1: "wr ?d b f a = Some d1" "links_ok d1" "length d1 = length ?d"
      by (rule wr_okE[OF ok b(2) a(2)])
    have i1: "idx < length d1" "a < length d1" "0 < length d1" using i a z d1(3) by simp_all
    obtain x2 where x2: "rd d1 idx t = Some x2" "x2 < length d1"
      by (rule rd_okE[OF d1(2) i1(1)])
    obtain d2 where d2: "wr d1 a t x2 = Some d2" "links_ok d2" "length d2 = length d1"
      by (rule wr_okE[OF d1(2) i1(2) x2(2)])
    have i2: "idx < length d2" "0 < length d2" using i1 d2(3) by simp_all
    obtain d3 where d3: "wr d2 idx f 0 = Some d3" "links_ok d3" "length d3 = length d2"
      by (rule wr_okE[OF d2(2) i2(1) i2(2)])
    have i3: "idx < length d3" "0 < length d3" using i2 d3(3) by simp_all
    obtain x4 where x4: "rd d3 0 t = Some x4" "x4 < length d3"
      by (rule rd_okE[OF d3(2) i3(2)])
    obtain d4 where d4: "wr d3 idx t x4 = Some d4" "links_ok d4" "length d4 = length d3"
      by (rule wr_okE[OF d3(2) i3(1) x4(2)])
    have i4: "idx < length d4" "0 < length d4" using i3 d4(3) by simp_all
    obtain x5 where x5: "rd d4 0 t = Some x5" "x5 < length d4"
      by (rule rd_okE[OF d4(2) i4(2)])
    obtain d5 where d5: "wr d4 x5 f idx = Some d5" "links_ok d5" "length d5 = length d4"
      by (rule wr_okE[OF d4(2) x5(2) i4(1)])
    have i5: "idx < length d5" "0 < length d5" using i4 d5(3) by simp_all
    obtain d6 where d6: "wr d5 0 t idx = Some d6" "links_ok d6" "length d6 = length d5"
      by (rule wr_okE[OF d5(2) i5(2) i5(1)])
    have "adjust c idx f t = Some (c\<lparr>dlnk := d6\<rparr>)"
      using False a b d1 x2 d2 d3 x4 d4 x5 d5 d6 by (simp add: adjust_def)
    moreover have "length d6 = length ?d"
      using d1(3) d2(3) d3(3) d4(3) d5(3) d6(3) by simp
    moreover have "fst (d6 ! 0) \<noteq> 0" if nz: "idx \<noteq> 0" "fst (?d ! 0) \<noteq> 0"
    proof -
      have "fst (d1 ! 0) \<noteq> 0" using wr_fst0[OF d1(1) nz(2)] False by simp
      then have "fst (d2 ! 0) \<noteq> 0" using wr_fst0[OF d2(1)] False by simp
      then have "fst (d3 ! 0) \<noteq> 0" using wr_fst0[OF d3(1)] nz(1) by simp
      then have "fst (d4 ! 0) \<noteq> 0" using wr_fst0[OF d4(1)] nz(1) by simp
      then have "fst (d5 ! 0) \<noteq> 0" using wr_fst0[OF d5(1)] nz(1) by simp
      then show ?thesis using wr_fst0[OF d6(1)] nz(1) by simp
    qed
    ultimately show ?thesis using d6(2) by blast
  qed
qed

lemma lookup_delete_if:
  "Mapping.lookup (Mapping.delete k m) k' = (if k = k' then None else Mapping.lookup m k')"
  by simp

lemma dec16_eq: "1 \<le> i \<Longrightarrow> i < 65536 \<Longrightarrow> dec16 i = i - 1"
  by (simp add: dec16_def mod_if)

lemma cache_ok_idx:
  assumes "cache_ok c" "Mapping.lookup (hmap c) key = Some i"
  shows "dec16 i = i - 1" "i - 1 < length (cm c)" "i < length (dlnk c)" "i \<noteq> 0" "1 \<le> clast c"
  using assms by (auto simp: cache_ok_alt dec16_eq dest!: spec[of _ key] spec[of _ i])

lemma adjust_cache_ok:
  assumes "cache_ok c" "idx < length (dlnk c)" "idx \<noteq> 0"
  shows "\<exists>d'. adjust c idx f t = Some (c\<lparr>dlnk := d'\<rparr>) \<and> cache_ok (c\<lparr>dlnk := d'\<rparr>)"
proof -
  from assms(1) have ok: "links_ok (dlnk c)" by (simp add: cache_ok_alt)
  from adjust_ok[OF ok assms(2), of f t] obtain d' where
    d: "adjust c idx f t = Some (c\<lparr>dlnk := d'\<rparr>)" "links_ok d'" "length d' = length (dlnk c)"
       "idx \<noteq> 0 \<and> fst (dlnk c ! 0) \<noteq> 0 \<longrightarrow> fst (d' ! 0) \<noteq> 0" by blast
  have "cache_ok (c\<lparr>dlnk := d'\<rparr>)"
    using assms(1,3) d(2,3,4) by (simp add: cache_ok_alt)
  then show ?thesis using d(1) by blast
qed

lemma get_spec:
  assumes "cache_ok c"
  shows "\<exists>c'. get c key = Some (c', slot c key, (if Mapping.lookup (hmap c) key = None then 0 else 1))
            \<and> cache_ok c' \<and> cm c' = cm c \<and> hmap c' = hmap c \<and> clast c' = clast c"
proof (cases "Mapping.lookup (hmap c) key")
  case None
  then show ?thesis using assms by (simp add: get_def slot_def)
next
  case (Some i)
  note ix = cache_ok_idx[OF assms Some]
  from adjust_cache_ok[OF assms ix(3) ix(4), of pre nxt] obtain d' where
    d: "adjust c i pre nxt = Some (c\<lparr>dlnk := d'\<rparr>)" "cache_ok (c\<lparr>dlnk := d'\<rparr>)" by blast
  show ?thesis using Some d ix by (simp add: get_def slot_def at_def)
qed

lemma del_spec_dead:
  assumes "\<not> live c key" "cache_ok c"
  shows "del c key = Some (c, None, 0, 0)"
proof (cases "Mapping.lookup (hmap c) key")
  case None
  then show ?thesis by (simp add: del_def)
next
  case (Some i)
  note ix = cache_ok_idx[OF assms(2) Some]
  show ?thesis using Some ix assms(1) by (simp add: del_def live_def slot_def at_def)
qed

lemma del_spec_live:
  assumes "live c key" "cache_ok c"
  shows "\<exists>c' n. slot c key = Some n \<and> del c key = Some (c', Some (n\<lparr>expireAt := 0\<rparr>), 1, expireAt n)
            \<and> cache_ok c' \<and> hmap c' = hmap c \<and> clast c' = clast c
            \<and> slot c' key = Some (n\<lparr>expireAt := 0\<rparr>) \<and> length (cm c') = length (cm c)"
proof -
  from assms(1) obtain i n where i: "Mapping.lookup (hmap c) key = Some i" and n: "at (cm c) (dec16 i) = Some n"
    and e: "expireAt n > 0"
    by (auto simp: live_def slot_def split: option.splits)
  note ix = cache_ok_idx[OF assms(2) i]
  let ?c1 = "c\<lparr>cm := (cm c)[dec16 i := n\<lparr>expireAt := 0\<rparr>]\<rparr>"
  have ok1: "cache_ok ?c1" using assms(2) by (simp add: cache_ok_alt)
  have "i < length (dlnk ?c1)" using ix by simp
  from adjust_cache_ok[OF ok1 this ix(4), of nxt pre] obtain d' where
    d: "adjust ?c1 i nxt pre = Some (?c1\<lparr>dlnk := d'\<rparr>)" "cache_ok (?c1\<lparr>dlnk := d'\<rparr>)" by blast
  show ?thesis using i n e d ix by (simp add: del_def slot_def at_def)
qed


lemma put_update:
  assumes "cache_ok c" "Mapping.lookup (hmap c) key = Some i"
  shows "\<exists>c'. put c key val e cb w = Some (c', w, 0) \<and> cache_ok c'
           \<and> (\<exists>n. slot c' key = Some n \<and> nv n = val \<and> expireAt n = e)
           \<and> length (cm c') = length (cm c)"
proof -
  note ix = cache_ok_idx[OF assms]
  let ?n = "cm c ! (i - 1)"
  let ?c1 = "c\<lparr>cm := (cm c)[dec16 i := ?n\<lparr>nv := val, expireAt := e\<rparr>]\<rparr>"
  have ok1: "cache_ok ?c1" using assms(1) by (simp add: cache_ok_alt)
  have "i < length (dlnk ?c1)" using ix by simp
  from adjust_cache_ok[OF ok1 this ix(4), of pre nxt] obtain d' where
    d: "adjust ?c1 i pre nxt = Some (?c1\<lparr>dlnk := d'\<rparr>)" "cache_ok (?c1\<lparr>dlnk := d'\<rparr>)" by blast
  show ?thesis using assms(2) d ix
    by (auto simp: put_def slot_def at_def)
qed

lemma put_reclaim:
  assumes "cache_ok c" "Mapping.lookup (hmap c) key = None" "clast c = length (cm c)"
  shows "\<exists>c'. put c key val e cb w =
             Some (c', (case cb of
                          Some f \<Rightarrow> if expireAt (tail_node c) > 0
                                    then f (nk (tail_node c)) (nv (tail_node c)) w else w
                        | None \<Rightarrow> w), 1)
           \<and> Mapping.lookup (hmap c') key = Some (fst (dlnk c ! 0))
           \<and> cache_ok c'
           \<and> (\<exists>n. slot c' key = Some n \<and> nv n = val \<and> expireAt n = e)
           \<and> length (cm c') = length (cm c)"
proof -
  let ?t = "fst (dlnk c ! 0)"
  have ok: "links_ok (dlnk c)" and len: "length (dlnk c) = length (cm c) + 1"
    and cap: "1 \<le> length (cm c)" "length (cm c) < 65535"
    using assms(1) by (simp_all add: cache_ok_alt)
  have t0: "?t \<noteq> 0" using assms(1,3) cap by (simp add: cache_ok_alt)
  have tl: "?t < length (dlnk c)" using ok links_ok_pos[OF ok] by (auto simp: links_ok_def)
  have rdt: "rd (dlnk c) 0 pre = Some ?t" using links_ok_pos[OF ok] by (simp add: rd_def lk_def pre_def)
  have dt: "dec16 ?t = ?t - 1" "?t - 1 < length (cm c)"
    using t0 tl len cap by (simp_all add: dec16_eq)
  let ?tn = "cm c ! (?t - 1)"
  let ?c1 = "c\<lparr>hmap := Mapping.update key ?t (Mapping.delete (nk ?tn) (hmap c)),
               cm := (cm c)[dec16 ?t := \<lparr>nk = key, nv = val, expireAt = e\<rparr>]\<rparr>"
  have ok1: "cache_ok ?c1"
    using assms(1,3) t0 tl len
    by (auto simp: cache_ok_alt lookup_update' lookup_delete_if split: if_splits)
  have "?t < length (dlnk ?c1)" using tl by simp
  from adjust_cache_ok[OF ok1 this t0, of pre nxt] obtain d' where
    d: "adjust ?c1 ?t pre nxt = Some (?c1\<lparr>dlnk := d'\<rparr>)" "cache_ok (?c1\<lparr>dlnk := d'\<rparr>)" by blast
  show ?thesis using assms(2,3) cap rdt dt d
    by (auto simp: put_def slot_def at_def u16_def Let_def tail_node_def split: option.splits)
qed

lemma put_append:
  assumes "cache_ok c" "Mapping.lookup (hmap c) key = None" "clast c \<noteq> length (cm c)"
  shows "\<exists>c'. put c key val e cb w = Some (c', w, 1) \<and> cache_ok c'
           \<and> (\<exists>n. slot c' key = Some n \<and> nv n = val \<and> expireAt n = e)
           \<and> length (cm c') = length (cm c)"
proof -
  let ?l = "clast c + 1"
  have ok: "links_ok (dlnk c)" and len: "length (dlnk c) = length (cm c) + 1"
    and cap: "1 \<le> length (cm c)" "length (cm c) < 65535" and lc: "clast c < length (cm c)"
    using assms(1,3) by (simp_all add: cache_ok_alt)
  have z: "0 < length (dlnk c)" by (rule links_ok_pos[OF ok])
  have l: "u16 ?l = ?l" "?l < length (dlnk c)" "dec16 ?l = clast c" "?l \<noteq> 0"
    using lc cap len by (simp_all add: u16_def dec16_def)
  obtain d1 where d1:
    "Mapping.is_empty (hmap c) \<longrightarrow> wr (dlnk c) 0 pre ?l = Some d1"
    "\<not> Mapping.is_empty (hmap c) \<longrightarrow> (\<exists>h. rd (dlnk c) 0 nxt = Some h \<and> wr (dlnk c) h pre ?l = Some d1)"
    "links_ok d1" "length d1 = length (dlnk c)" "fst (d1 ! 0) \<noteq> 0"
  proof (cases "Mapping.is_empty (hmap c)")
    case True
    obtain d1 where "wr (dlnk c) 0 pre ?l = Some d1" "links_ok d1" "length d1 = length (dlnk c)"
      "d1 = (dlnk c)[0 := lk_upd (dlnk c ! 0) pre ?l]"
      by (rule wr_okE[OF ok z l(2)])
    then show ?thesis using True that[of d1] z by (simp add: lk_upd_def pre_def)
  next
    case False
    then obtain k where "k \<in> Mapping.keys (hmap c)" by (auto simp: Mapping.is_empty_def)
    then obtain i where "Mapping.lookup (hmap c) k = Some i" by (auto dest: in_keysD)
    then have "1 \<le> clast c" using assms(1) by (rule cache_ok_idx(5)[rotated])
    then have nz: "fst (dlnk c ! 0) \<noteq> 0" using assms(1) by (simp add: cache_ok_alt)
    obtain h where h: "rd (dlnk c) 0 nxt = Some h" "h < length (dlnk c)"
      by (rule rd_okE[OF ok z])
    obtain d1 where w: "wr (dlnk c) h pre ?l = Some d1" "links_ok d1" "length d1 = length (dlnk c)"
      by (rule wr_okE[OF ok h(2) l(2)])
    have "fst (d1 ! 0) \<noteq> 0" using wr_fst0[OF w(1) nz] by simp
    then show ?thesis using False that[of d1] h w by simp
  qed
  note ne = d1(5)
  have z1: "0 < length d1" "?l < length d1" using z l(2) d1(4) by simp_all
  obtain h0 where h0: "rd d1 0 nxt = Some h0" "h0 < length d1"
    by (rule rd_okE[OF d1(3) z1(1)])
  let ?d2 = "d1[?l := (0, h0)]"
  have ok2: "links_ok ?d2" using d1(3) h0(2) z1 by (intro links_ok_update) simp_all
  have z2: "0 < length ?d2" "?l < length ?d2" using z1 by simp_all
  obtain d3 where d3: "wr ?d2 0 nxt ?l = Some d3" "links_ok d3" "length d3 = length ?d2"
    by (rule wr_okE[OF ok2 z2])
  have ne3: "fst (d3 ! 0) \<noteq> 0"
  proof -
    have "fst (?d2 ! 0) \<noteq> 0" using ne z1 by (simp add: nth_list_update)
    from wr_fst0[OF d3(1) this] show ?thesis by simp
  qed
  let ?c' = "c\<lparr>dlnk := d3, cm := (cm c)[dec16 ?l := \<lparr>nk = key, nv = val, expireAt = e\<rparr>],
               hmap := Mapping.update key ?l (hmap c), clast := ?l\<rparr>"
  have put: "put c key val e cb w = Some (?c', w, 1)"
    using assms(2,3) cap l d1(1,2) h0(1) z1 d3(1) lc
    by (cases "Mapping.is_empty (hmap c)") (auto simp: put_def u16_def at_def Let_def)
  have hr: "\<And>k i. Mapping.lookup (hmap c) k = Some i \<Longrightarrow> 1 \<le> i \<and> i \<le> clast c"
    using assms(1) by (simp add: cache_ok_alt)
  have hr': "\<forall>k i. Mapping.lookup (Mapping.update key ?l (hmap c)) k = Some i \<longrightarrow> 1 \<le> i \<and> i \<le> ?l"
    by (auto simp: lookup_update' dest: hr split: if_splits)
  have ok': "cache_ok ?c'"
    using d3(2,3) d1(4) ne3 lc len cap hr' by (simp add: cache_ok_alt)
  have "slot ?c' key = Some \<lparr>nk = key, nv = val, expireAt = e\<rparr>"
    using l lc by (simp add: slot_def at_def)
  then show ?thesis using put ok' by (intro exI[of _ ?c']) simp
qed

section \<open>The store operations on one shard\<close>

lemma shard_at_upd:
  "shard_at s idx = Some q \<Longrightarrow> shard_at (shard_upd s idx p) idx = Some p"
  by (auto simp: shard_at_def shard_upd_def split: if_splits)

lemma shard_upd_upd: "shard_upd (shard_upd s idx p) idx q = shard_upd s idx q"
  by (simp add: shard_upd_def)

lemma shard_upd_same: "shard_at s idx = Some p \<Longrightarrow> shard_upd s idx p = s"
  by (auto simp: shard_at_def shard_upd_def split: if_splits)

lemma shard_upd_fields:
  "onEvicted (shard_upd s idx p) = onEvicted s" "smask (shard_upd s idx p) = smask s"
  "length (caches (shard_upd s idx p)) = length (caches s)"
  by (simp_all add: shard_upd_def)

lemma shard_upd_nth:
  "shard_at s idx = Some q \<Longrightarrow> caches (shard_upd s idx p) ! nat idx = p"
  by (auto simp: shard_at_def shard_upd_def split: if_splits)

lemma live_slot: "live c key \<longleftrightarrow> (\<exists>n. slot c key = Some n \<and> expireAt n > 0)"
  by (auto simp: live_def split: option.splits)

lemma delete_spec:
  assumes sh: "shard_at s idx = Some (c0, c1)" and ok: "cache_ok c0" "cache_ok c1"
  shows "\<exists>c0' c1'. delete s key idx w =
            Some (shard_upd s idx (c0', c1'),
                  (case onEvicted s of
                     None \<Rightarrow> w
                   | Some f \<Rightarrow>
                       (case (case live_val c0 key of Some x \<Rightarrow> Some x | None \<Rightarrow> live_val c1 key) of
                          Some x \<Rightarrow> f key (Some x) w
                        | None \<Rightarrow> w)),
                  live c0 key \<or> live c1 key)
          \<and> cache_ok c0' \<and> cache_ok c1' \<and> \<not> live c0' key \<and> \<not> live c1' key"
proof -
  obtain c0' n1 s1 e1 where d0: "del c0 key = Some (c0', n1, s1, e1)" "cache_ok c0'" "\<not> live c0' key"
    "s1 > 0 \<longleftrightarrow> live c0 key"
    "(case n1 of Some a \<Rightarrow> nv a | None \<Rightarrow> None) = live_val c0 key"
  proof (cases "live c0 key")
    case True
    from del_spec_live[OF True ok(1)] obtain c' n where
      "slot c0 key = Some n" "del c0 key = Some (c', Some (n\<lparr>expireAt := 0\<rparr>), 1, expireAt n)"
      "cache_ok c'" "slot c' key = Some (n\<lparr>expireAt := 0\<rparr>)" by blast
    then show ?thesis using True that[of c' "Some (n\<lparr>expireAt := 0\<rparr>)" 1 "expireAt n"]
      by (auto simp: live_def live_val_def)
  next
    case False
    from del_spec_dead[OF False ok(1)] show ?thesis
      using False ok(1) that[of c0 None 0 0]
      by (auto simp: live_def live_val_def split: option.splits)
  qed
  obtain c1' n2 s2 e2 where d1: "del c1 key = Some (c1', n2, s2, e2)" "cache_ok c1'" "\<not> live c1' key"
    "s2 > 0 \<longleftrightarrow> live c1 key"
    "(case n2 of Some a \<Rightarrow> nv a | None \<Rightarrow> None) = live_val c1 key"
  proof (cases "live c1 key")
    case True
    from del_spec_live[OF True ok(2)] obtain c' n where
      "slot c1 key = Some n" "del c1 key = Some (c', Some (n\<lparr>expireAt := 0\<rparr>), 1, expireAt n)"
      "cache_ok c'" "slot c' key = Some (n\<lparr>expireAt := 0\<rparr>)" by blast
    then show ?thesis using True that[of c' "Some (n\<lparr>expireAt := 0\<rparr>)" 1 "expireAt n"]
      by (auto simp: live_def live_val_def)
  next
    case False
    from del_spec_dead[OF False ok(2)] show ?thesis
      using False ok(2) that[of c1 None 0 0]
      by (auto simp: live_def live_val_def split: option.splits)
  qed
  have dead0: "\<not> live c0 key \<Longrightarrow> live_val c0 key = None"
    and dead1: "\<not> live c1 key \<Longrightarrow> live_val c1 key = None"
    by (auto simp: live_def live_val_def split: option.splits)
  have "delete s key idx w =
            Some (shard_upd s idx (c0', c1'),
                  (case onEvicted s of
                     None \<Rightarrow> w
                   | Some f \<Rightarrow>
                       (case (case live_val c0 key of Some x \<Rightarrow> Some x | None \<Rightarrow> live_val c1 key) of
                          Some x \<Rightarrow> f key (Some x) w
                        | None \<Rightarrow> w)),
                  live c0 key \<or> live c1 key)"
    using sh d0(1,4,5) d1(1,4,5) dead0 dead1
    by (auto simp: delete_def Let_def split: option.splits)
  then show ?thesis using d0(2,3) d1(2,3) by blast
qed


lemma store_shard:
  assumes "store_ok s"
  shows "shard_at s (hashBKRD key AND smask s) = Some (L1 s key, L2 s key)"
    "cache_ok (L1 s key)" "cache_ok (L2 s key)"
proof -
  let ?i = "hashBKRD key AND smask s"
  have m: "0 \<le> smask s" "nat (smask s) < length (caches s)"
    using assms by (simp_all add: store_ok_def)
  have "0 \<le> ?i" "?i \<le> smask s"
    using m(1) by (simp_all add: AND_upper2)
  then have r: "0 \<le> ?i" "nat ?i < length (caches s)" using m(2) by simp_all
  then show "shard_at s ?i = Some (L1 s key, L2 s key)"
    by (simp add: shard_at_def L1_def L2_def shard_of_def)
  have "caches s ! nat ?i \<in> set (caches s)" using r(2) by simp
  then show "cache_ok (L1 s key)" "cache_ok (L2 s key)"
    using assms by (auto simp: store_ok_def L1_def L2_def shard_of_def)
qed

lemma L_shard_upd:
  assumes "shard_at s (hashBKRD key AND smask s) = Some q"
  shows "L1 (shard_upd s (hashBKRD key AND smask s) (a, b)) key = a"
    "L2 (shard_upd s (hashBKRD key AND smask s) (a, b)) key = b"
  using shard_upd_nth[OF assms, of "(a, b)"]
  by (simp_all add: L1_def L2_def shard_of_def shard_upd_fields)


lemma put_spec:
  assumes "cache_ok c"
  shows "\<exists>c' w' r. put c key val e cb w = Some (c', w', r) \<and> cache_ok c'
           \<and> (\<exists>n. slot c' key = Some n \<and> nv n = val \<and> expireAt n = e)"
proof (cases "Mapping.lookup (hmap c) key")
  case (Some i)
  from put_update[OF assms Some, of val e cb w] show ?thesis by blast
next
  case None
  show ?thesis
  proof (cases "clast c = length (cm c)")
    case True
    from put_reclaim[OF assms None True, of val e cb w] show ?thesis by blast
  next
    case False
    from put_append[OF assms None False, of val e cb w] show ?thesis by blast
  qed
qed

lemma get_level_1_spec:
  assumes sh: "shard_at s idx = Some (c0, c1)" and ok: "cache_ok c1"
  shows "\<exists>c1'. get_level s key idx 1 now =
            Some (shard_upd s idx (c0, c1'),
                  (case slot c1 key of
                     Some a \<Rightarrow> if expireAt a \<le> 0 \<or> now \<ge> expireAt a then (None, 0) else (Some a, 1)
                   | None \<Rightarrow> (None, 0)))
          \<and> cache_ok c1' \<and> slot c1' key = slot c1 key"
proof -
  from get_spec[OF ok, of key] obtain c' where
    g: "get c1 key = Some (c', slot c1 key, (if Mapping.lookup (hmap c1) key = None then 0 else 1))"
    and c': "cache_ok c'" "cm c' = cm c1" "hmap c' = hmap c1" by blast
  have sl: "slot c' key = slot c1 key" using c'(2,3) by (simp add: slot_def split: option.splits)
  have "get_level s key idx 1 now =
            Some (shard_upd s idx (c0, c'),
                  (case slot c1 key of
                     Some a \<Rightarrow> if expireAt a \<le> 0 \<or> now \<ge> expireAt a then (None, 0) else (Some a, 1)
                   | None \<Rightarrow> (None, 0)))"
    using sh g by (auto simp: get_level_def slot_def split: option.splits)
  then show ?thesis using c'(1) sl by blast
qed

lemma Get_level2_hit:
  assumes sh: "shard_at s idx = Some (c0, c1)" and ok: "cache_ok c1"
    and b: "slot c1 key = Some b" "0 < expireAt b" "now2 < expireAt b" "currentTime < expireAt b"
  shows "\<exists>c1'. Get_level2 s key idx currentTime now2 w = Some (shard_upd s idx (c0, c1'), w, nv b, True)
          \<and> cache_ok c1' \<and> slot c1' key = Some b"
proof -
  from get_level_1_spec[OF sh ok, of key now2] b obtain c1' where
    "get_level s key idx 1 now2 = Some (shard_upd s idx (c0, c1'), Some b, 1)"
    "cache_ok c1'" "slot c1' key = Some b" by auto
  then show ?thesis using b by (auto simp: Get_level2_def)
qed

lemma Get_level2_miss:
  assumes sh: "shard_at s idx = Some (c0, c1)" and ok: "cache_ok c1"
    and b: "slot c1 key = None \<or> (\<exists>b. slot c1 key = Some b \<and> (expireAt b \<le> 0 \<or> expireAt b \<le> now2))"
  shows "\<exists>c1'. Get_level2 s key idx currentTime now2 w = Some (shard_upd s idx (c0, c1'), w, None, False)
          \<and> cache_ok c1' \<and> slot c1' key = slot c1 key"
proof -
  from get_level_1_spec[OF sh ok, of key now2] b obtain c1' where
    "get_level s key idx 1 now2 = Some (shard_upd s idx (c0, c1'), None, 0)"
    "cache_ok c1'" "slot c1' key = slot c1 key" by (auto split: option.splits)
  then show ?thesis by (auto simp: Get_level2_def)
qed

lemma Get_promote:
  assumes sh: "shard_at s (hashBKRD key AND smask s) = Some (c0, c1)"
    and ok: "cache_ok c0" "cache_ok c1"
    and n: "slot c0 key = Some n" "0 < expireAt n" "currentTime < expireAt n" "now2 < expireAt n"
  shows "\<exists>c0' c1' w'. Get s key currentTime now2 w =
            Some (shard_upd s (hashBKRD key AND smask s) (c0', c1'), w', nv n, True)
          \<and> cache_ok c0' \<and> cache_ok c1' \<and> \<not> live c0' key \<and> live c1' key"
proof -
  let ?i = "hashBKRD key AND smask s"
  have lv: "live c0 key" using n by (simp add: live_def)
  from del_spec_live[OF lv ok(1)] n(1) obtain c0' where
    d: "del c0 key = Some (c0', Some (n\<lparr>expireAt := 0\<rparr>), 1, expireAt n)"
    and c0': "cache_ok c0'" "slot c0' key = Some (n\<lparr>expireAt := 0\<rparr>)" by auto
  from put_spec[OF ok(2), of key "nv n" "expireAt n" "onEvicted s" w] obtain c1' w' r b where
    p: "put c1 key (nv n) (expireAt n) (onEvicted s) w = Some (c1', w', r)"
    and c1': "cache_ok c1'" "slot c1' key = Some b" "nv b = nv n" "expireAt b = expireAt n" by blast
  have sh': "shard_at (shard_upd s ?i (c0', c1')) ?i = Some (c0', c1')"
    by (rule shard_at_upd[OF sh])
  from Get_level2_hit[OF sh' c1'(1) c1'(2), of now2 currentTime w'] n c1'(4) obtain c1'' where
    g: "Get_level2 (shard_upd s ?i (c0', c1')) key ?i currentTime now2 w' =
          Some (shard_upd (shard_upd s ?i (c0', c1')) ?i (c0', c1''), w', nv b, True)"
    and c1'': "cache_ok c1''" "slot c1'' key = Some b" by auto
  have "Get s key currentTime now2 w = Some (shard_upd s ?i (c0', c1''), w', nv n, True)"
    using sh d p g n c1'(3) by (simp add: Get_def Let_def shard_upd_upd)
  moreover have "\<not> live c0' key" using c0'(2) by (simp add: live_def)
  moreover have "live c1'' key" using c1''(2) c1'(4) n(2) by (simp add: live_def)
  ultimately show ?thesis using c0'(1) c1''(1) by blast
qed

lemma Get_level2_only:
  assumes sh: "shard_at s (hashBKRD key AND smask s) = Some (c0, c1)"
    and ok: "cache_ok c0" and dead: "\<not> live c0 key"
  shows "Get s key currentTime now2 w =
           Get_level2 s key (hashBKRD key AND smask s) currentTime now2 w"
  using sh del_spec_dead[OF dead ok]
  by (simp add: Get_def Let_def shard_upd_same)

lemma SetWithExpiration_spec:
  assumes "store_ok s"
  shows "\<exists>c0' w'. SetWithExpiration s key val d now w =
            Some (shard_upd s (hashBKRD key AND smask s) (c0', L2 s key), w')
          \<and> cache_ok c0'
          \<and> (\<exists>n. slot c0' key = Some n \<and> nv n = val
                  \<and> expireAt n = (if d > 0 then wrap64 (now + d) else 0))"
proof -
  note sh = store_shard[OF assms, of key]
  let ?e = "if d > 0 then wrap64 (now + d) else 0"
  from put_spec[OF sh(2), of key val ?e "onEvicted s" w] obtain c0' w' r where
    p: "put (L1 s key) key val ?e (onEvicted s) w = Some (c0', w', r)"
    and c: "cache_ok c0'" "\<exists>n. slot c0' key = Some n \<and> nv n = val \<and> expireAt n = ?e" by blast
  have "SetWithExpiration s key val d now w =
          Some (shard_upd s (hashBKRD key AND smask s) (c0', L2 s key), w')"
    using sh(1) p by (simp add: SetWithExpiration_def Let_def)
  then show ?thesis using c by blast
qed

lemma shard_upd_store_ok:
  assumes "store_ok s" "shard_at s idx = Some q" "cache_ok a" "cache_ok b"
  shows "store_ok (shard_upd s idx (a, b))"
proof -
  have "\<And>p. p \<in> set ((caches s)[nat idx := (a, b)]) \<Longrightarrow> p = (a, b) \<or> p \<in> set (caches s)"
    using set_update_subset_insert[of "caches s" "nat idx" "(a, b)"] by auto
  then have "\<forall>p \<in> set ((caches s)[nat idx := (a, b)]). cache_ok (fst p) \<and> cache_ok (snd p)"
    using assms by (fastforce simp: store_ok_def)
  then show ?thesis using assms(1) by (simp add: store_ok_def shard_upd_def)
qed

lemma shard_upd_L2_same:
  assumes "shard_at s idx = Some (c0, c1)"
  shows "map snd (caches (shard_upd s idx (a, c1))) = map snd (caches s)"
proof -
  have "nat idx < length (caches s)" "snd (caches s ! nat idx) = c1"
    using assms by (auto simp: shard_at_def split: if_splits)
  then have "(map snd (caches s))[nat idx := c1] = map snd (caches s)"
    by (metis length_map list_update_id nth_map)
  then show ?thesis by (simp add: shard_upd_def map_update)
qed

lemma Set_spec:
  assumes "store_ok s"
  shows "\<exists>c0' w1. Set s k v now0 w = Some (shard_upd s (hashBKRD k AND smask s) (c0', L2 s k), w1)
          \<and> cache_ok c0'
          \<and> (\<exists>n. slot c0' k = Some n \<and> nv n = v \<and> expireAt n = Set_expireAt now0)"
  using SetWithExpiration_spec[OF assms, of k v 9999999999999999 now0 w]
  by (simp add: Set_def Set_expireAt_def)


section \<open>Well-formedness is established by the constructor and kept by the operations\<close>

text \<open>
  A store built by \<open>newLRU2Cache\<close> with at most 32768 shards and capacities below 65535 is
  well-formed, and \<open>SetWithExpiration\<close>, \<open>Get\<close> and \<open>Delete\<close> return normally on a well-formed
  store and leave it well-formed. The last two lemmas are the general forms of what
  happens to a zero expiration and to an entry of L2 whose expiry has passed.
\<close>

lemma Create_ok:
  assumes "1 \<le> cap" "cap < 65535"
  shows "cache_ok (Create cap :: 'v cache)"
  using assms by (simp add: cache_ok_alt links_ok_def Create_def u16_def)

lemma or_nat_less:
  fixes x y :: nat
  assumes "x < 2 ^ n" "y < 2 ^ n"
  shows "x OR y < 2 ^ n"
proof -
  have "int x OR int y < 2 ^ n"
    using assms by (intro OR_upper) simp_all
  then have "int (x OR y) < int (2 ^ n)" by (simp add: of_nat_or_eq)
  then show ?thesis by (simp only: of_nat_less_iff)
qed

lemma drop_bit_nat_less:
  fixes x :: nat
  assumes "x < 2 ^ n"
  shows "drop_bit k x < 2 ^ n"
proof -
  have "drop_bit k x \<le> x" by (simp add: drop_bit_eq_div div_le_dividend)
  then show ?thesis using assms by simp
qed

lemma maskOfNextPowOf2_bound:
  assumes "bc \<le> 32768"
  shows "maskOfNextPowOf2 bc < 32768"
proof (cases "bc > 0 \<and> bc AND (bc - 1) = 0")
  case True
  then show ?thesis using assms by (simp add: maskOfNextPowOf2_def)
next
  case False
  have "(32768 :: nat) AND (32768 - 1) = 0" by simp
  then have "bc \<noteq> 32768" using False by auto
  then have b: "bc < 2 ^ 15" using assms by simp
  have "maskOfNextPowOf2 bc < 2 ^ 15"
    using False b unfolding maskOfNextPowOf2_def Let_def
    by (simp only: if_False) (intro or_nat_less drop_bit_nat_less b)
  then show ?thesis by simp
qed

lemma newLRU2Cache_ok:
  assumes "BucketCount opts \<le> 32768" "CapPerBucket opts < 65535" "Level2Cap opts < 65535"
  shows "store_ok (newLRU2Cache opts)"
proof -
  let ?bc = "if BucketCount opts = 0 then 16 else BucketCount opts"
  let ?c1 = "if CapPerBucket opts = 0 then 1024 else CapPerBucket opts"
  let ?c2 = "if Level2Cap opts = 0 then 1024 else Level2Cap opts"
  have m: "maskOfNextPowOf2 ?bc < 32768"
    using assms(1) by (intro maskOfNextPowOf2_bound) simp
  have ok1: "cache_ok (Create ?c1 :: 'a cache)" using assms(2) by (intro Create_ok) simp_all
  have ok2: "cache_ok (Create ?c2 :: 'a cache)" using assms(3) by (intro Create_ok) simp_all
  show ?thesis
    using m ok1 ok2 by (simp add: store_ok_def newLRU2Cache_def Let_def u16_def)
qed


lemma shard_at_ok:
  assumes "store_ok s" "shard_at s idx = Some (c0, c1)"
  shows "cache_ok c0" "cache_ok c1"
proof -
  have "nat idx < length (caches s)" "caches s ! nat idx = (c0, c1)"
    using assms(2) by (auto simp: shard_at_def split: if_splits)
  then have "(c0, c1) \<in> set (caches s)" by (metis nth_mem)
  then show "cache_ok c0" "cache_ok c1" using assms(1) by (auto simp: store_ok_def)
qed

lemma delete_ok:
  assumes ok: "store_ok s" and sh: "shard_at s idx = Some (c0, c1)"
  shows "\<exists>s' w' r. delete s key idx w = Some (s', w', r) \<and> store_ok s'"
proof -
  note c = shard_at_ok[OF ok sh]
  from delete_spec[OF sh c, of key w] obtain c0' c1' w' r where
    "delete s key idx w = Some (shard_upd s idx (c0', c1'), w', r)" "cache_ok c0'" "cache_ok c1'"
    by blast
  then show ?thesis using shard_upd_store_ok[OF ok sh] by blast
qed

lemma Get_level2_ok:
  assumes ok: "store_ok s" and sh: "shard_at s idx = Some (c0, c1)"
  shows "\<exists>s' w' r. Get_level2 s key idx currentTime now2 w = Some (s', w', r) \<and> store_ok s'"
proof -
  note c = shard_at_ok[OF ok sh]
  from get_level_1_spec[OF sh c(2), of key now2] obtain c1' where
    g: "get_level s key idx 1 now2 =
          Some (shard_upd s idx (c0, c1'),
                (case slot c1 key of
                   Some a \<Rightarrow> if expireAt a \<le> 0 \<or> now2 \<ge> expireAt a then (None, 0) else (Some a, 1)
                 | None \<Rightarrow> (None, 0)))"
    and c1': "cache_ok c1'" by blast
  let ?s2 = "shard_upd s idx (c0, c1')"
  have ok2: "store_ok ?s2" by (rule shard_upd_store_ok[OF ok sh c(1) c1'])
  have sh2: "shard_at ?s2 idx = Some (c0, c1')" by (rule shard_at_upd[OF sh])
  from delete_ok[OF ok2 sh2, of key w] obtain s3 w3 r3 where
    d: "delete ?s2 key idx w = Some (s3, w3, r3)" "store_ok s3" by blast
  show ?thesis
    using g ok2 d by (auto simp: Get_level2_def split: option.splits)
qed

lemma SetWithExpiration_ok:
  assumes "store_ok s"
  shows "\<exists>s' w'. SetWithExpiration s key val d now w = Some (s', w') \<and> store_ok s'"
proof -
  note sh = store_shard[OF assms, of key]
  from SetWithExpiration_spec[OF assms, of key val d now w] obtain c0' w' where
    "SetWithExpiration s key val d now w =
       Some (shard_upd s (hashBKRD key AND smask s) (c0', L2 s key), w')" "cache_ok c0'"
    by blast
  then show ?thesis using shard_upd_store_ok[OF assms sh(1) _ sh(3)] by blast
qed

lemma Delete_ok:
  assumes "store_ok s"
  shows "\<exists>s' w' r. Delete s key w = Some (s', w', r) \<and> store_ok s'"
  using delete_ok[OF assms store_shard(1)[OF assms]] by (simp add: Delete_def)

lemma Get_ok:
  assumes ok: "store_ok s"
  shows "\<exists>s' w' r. Get s key currentTime now2 w = Some (s', w', r) \<and> store_ok s'"
proof (cases "live (L1 s key) key")
  case False
  note sh = store_shard[OF ok, of key]
  show ?thesis
    using Get_level2_only[OF sh(1) sh(2) False] Get_level2_ok[OF ok sh(1)] by simp
next
  case True
  let ?i = "hashBKRD key AND smask s"
  note sh = store_shard[OF ok, of key]
  from del_spec_live[OF True sh(2)] obtain c0' n where
    d: "del (L1 s key) key = Some (c0', Some (n\<lparr>expireAt := 0\<rparr>), 1, expireAt n)"
    and c0': "cache_ok c0'" and n: "slot (L1 s key) key = Some n" by blast
  have e: "0 < expireAt n" using True n by (simp add: live_def)
  show ?thesis
  proof (cases "currentTime \<ge> expireAt n")
    case True
    let ?s1 = "shard_upd s ?i (c0', L2 s key)"
    have ok1: "store_ok ?s1" by (rule shard_upd_store_ok[OF ok sh(1) c0' sh(3)])
    have sh1: "shard_at ?s1 ?i = Some (c0', L2 s key)" by (rule shard_at_upd[OF sh(1)])
    from delete_ok[OF ok1 sh1, of key w] obtain s2 w2 r2 where
      "delete ?s1 key ?i w = Some (s2, w2, r2)" "store_ok s2" by blast
    then show ?thesis using sh(1) d e True by (auto simp: Get_def Let_def)
  next
    case False
    from put_spec[OF sh(3), of key "nv n" "expireAt n" "onEvicted s" w] obtain c1' w1 r1 where
      p: "put (L2 s key) key (nv n) (expireAt n) (onEvicted s) w = Some (c1', w1, r1)"
      and c1': "cache_ok c1'" by blast
    let ?s1 = "shard_upd s ?i (c0', c1')"
    have ok1: "store_ok ?s1" by (rule shard_upd_store_ok[OF ok sh(1) c0' c1'])
    have sh1: "shard_at ?s1 ?i = Some (c0', c1')" by (rule shard_at_upd[OF sh(1)])
    from Get_level2_ok[OF ok1 sh1, of key currentTime now2 w1] obtain s2 w2 r2 where
      "Get_level2 ?s1 key ?i currentTime now2 w1 = Some (s2, w2, r2)" "store_ok s2" by blast
    then show ?thesis using sh(1) d p False by (auto simp: Get_def Let_def)
  qed
qed

lemma Get_expired_in_L2:
  assumes ok: "store_ok s" and dead: "\<not> live (L1 s key) key"
    and b: "slot (L2 s key) key = Some b" "0 < expireAt b" "expireAt b \<le> now2"
  shows "\<exists>s'. Get s key currentTime now2 w = Some (s', w, None, False)
           \<and> slot (L2 s' key) key = Some b \<and> live (L2 s' key) key"
proof -
  let ?i = "hashBKRD key AND smask s"
  note sh = store_shard[OF ok, of key]
  from Get_level2_miss[OF sh(1) sh(3), of key now2 currentTime w] b obtain c1' where
    g: "Get_level2 s key ?i currentTime now2 w = Some (shard_upd s ?i (L1 s key, c1'), w, None, False)"
    and c1': "slot c1' key = Some b" by auto
  have "L2 (shard_upd s ?i (L1 s key, c1')) key = c1'" using L_shard_upd[OF sh(1)] by simp
  then show ?thesis
    using Get_level2_only[OF sh(1) sh(2) dead, of currentTime now2 w] g c1' b(2)
    by (simp add: live_def)
qed

lemma SetWithExpiration_zero:
  assumes ok: "store_ok s" and d: "d \<le> 0"
  shows "\<exists>s' w'. SetWithExpiration s key val d now w = Some (s', w') \<and> \<not> live (L1 s' key) key"
proof -
  note sh = store_shard[OF ok, of key]
  from SetWithExpiration_spec[OF ok, of key val d now w] d obtain c0' w' n where
    s: "SetWithExpiration s key val d now w =
          Some (shard_upd s (hashBKRD key AND smask s) (c0', L2 s key), w')"
    and n: "slot c0' key = Some n" "expireAt n = 0" by auto
  have "L1 (shard_upd s (hashBKRD key AND smask s) (c0', L2 s key)) key = c0'"
    using L_shard_upd[OF sh(1)] by simp
  then show ?thesis using s n by (simp add: live_def)
qed

section \<open>Evaluation on the concrete inputs\<close>

lemmas list_eval = put_def get_def del_def adjust_def rd_def wr_def at_def lk_def lk_upd_def
  pre_def nxt_def dec16_def u16_def lookup_update' lookup_delete_if

lemmas store_eval = shard_at_def shard_upd_def delete_def Delete_def get_level_def Get_level2_def
  Get_def SetWithExpiration_def Set_def wrap64_def

lemma hash_a: "hashBKRD ''a'' = 97"
  by (simp add: hashBKRD_def wrap32_def)

lemma small_store_eq:
  "small_store = \<lparr>caches = [(Create 1, Create 1)], onEvicted = Some log_evict, smask = 0\<rparr>"
  by (simp add: small_store_def newLRU2Cache_def maskOfNextPowOf2_def u16_def)

lemma Create_1:
  "Create (Suc 0) = \<lparr>dlnk = [(0, 0), (0, 0)], cm = [zero_node], hmap = Mapping.empty, clast = 0\<rparr>"
  by (simp add: Create_def u16_def numeral_2_eq_2)

lemma Set_small:
  "SetWithExpiration small_store ''a'' v d 100 [] =
     Some (one_entry_store v (if d > 0 then wrap64 (100 + d) else 0), [])"
  by (simp add: small_store_eq Create_1 hash_a one_entry_store_def one_entry_list_def
      SetWithExpiration_def shard_at_def shard_upd_def list_eval Let_def)


lemma one_entry_list_ok: "cache_ok (one_entry_list v e)"
  by (simp add: cache_ok_alt links_ok_def one_entry_list_def lookup_update')

lemma Create_1_ok: "cache_ok (Create (Suc 0) :: 'v cache)"
  by (simp add: cache_ok_alt links_ok_def Create_1)

lemma one_entry_store_ok: "store_ok (one_entry_store v e)"
  by (simp add: store_ok_def one_entry_store_def one_entry_list_ok Create_1_ok)

lemma Delete_one_entry:
  "Delete (one_entry_store v e) ''a'' w =
     Some (one_entry_store v (if e > 0 then 0 else e),
           (if e > 0 then (case v of Some x \<Rightarrow> w @ [(''a'', Some x)] | None \<Rightarrow> w) else w), e > 0)"
  by (simp add: one_entry_store_def one_entry_list_def Create_1 hash_a Delete_def delete_def
      shard_at_def shard_upd_def list_eval log_evict_def split: option.splits)


lemma walk_from_0: "walk_from c wk 0 acc = Some acc"
  by (subst walk_from.simps) simp

lemma walk_from_pos:
  "idx \<noteq> 0 \<Longrightarrow> walk_from c wk idx acc =
     (case at (cm c) (dec16 idx) of
        None \<Rightarrow> None
      | Some n \<Rightarrow>
          if expireAt n > 0 \<and> \<not> snd (wk (nk n) (nv n) (expireAt n) acc)
          then Some (fst (wk (nk n) (nv n) (expireAt n) acc))
          else (case rd (dlnk c) idx nxt of
                  None \<Rightarrow> None
                | Some j \<Rightarrow>
                    walk_from c wk j
                      (if expireAt n > 0 then fst (wk (nk n) (nv n) (expireAt n) acc) else acc)))"
  by (subst walk_from.simps) simp

lemma Get_one_entry:
  "0 < e \<Longrightarrow> t1 < e \<Longrightarrow> t2 < e \<Longrightarrow>
   Get (one_entry_store v e) ''a'' t1 t2 w = Some (two_tier_store v 0 v e, w, v, True)"
  by (simp add: one_entry_store_def two_tier_store_def one_entry_list_def Create_1 hash_a
      Get_def Get_level2_def get_level_def shard_at_def shard_upd_def list_eval Let_def zero_node_def)

lemma Get_one_entry_dead:
  "e \<le> 0 \<Longrightarrow> Get (one_entry_store v e) ''a'' t1 t2 w = Some (one_entry_store v e, w, None, False)"
  by (simp add: one_entry_store_def one_entry_list_def Create_1 hash_a
      Get_def Get_level2_def get_level_def shard_at_def shard_upd_def list_eval Let_def)

lemma Get_two_tier_expired:
  "e1 \<le> 0 \<Longrightarrow> e2 \<le> t2 \<Longrightarrow>
   Get (two_tier_store v1 e1 v2 e2) ''a'' t1 t2 w = Some (two_tier_store v1 e1 v2 e2, w, None, False)"
  by (simp add: two_tier_store_def one_entry_list_def hash_a
      Get_def Get_level2_def get_level_def shard_at_def shard_upd_def list_eval Let_def)

lemma Set_two_tier:
  "SetWithExpiration (two_tier_store v1 e1 v2 e2) ''a'' v d now w =
     Some (two_tier_store v (if d > 0 then wrap64 (now + d) else 0) v2 e2, w)"
  by (simp add: two_tier_store_def one_entry_list_def hash_a
      SetWithExpiration_def shard_at_def shard_upd_def list_eval Let_def)

lemma walk_one_entry:
  "walk (one_entry_list v e) count_walker n = Some (if e > 0 then n + 1 else n)"
  by (simp add: walk_def one_entry_list_def rd_def lk_def nxt_def walk_from_pos walk_from_0
      at_def dec16_def count_walker_def)

lemma Len_two_tier:
  "Len (two_tier_store v1 e1 v2 e2) = Some ((if e1 > 0 then 1 else 0) + (if e2 > 0 then 1 else 0))"
  by (simp add: Len_def two_tier_store_def walk_one_entry)

lemma live_two_tier:
  "live (L1 (two_tier_store v1 e1 v2 e2) ''a'') ''a'' \<longleftrightarrow> e1 > 0"
  "live (L2 (two_tier_store v1 e1 v2 e2) ''a'') ''a'' \<longleftrightarrow> e2 > 0"
  by (simp_all add: live_def slot_def L1_def L2_def shard_of_def hash_a
        two_tier_store_def one_entry_list_def at_def dec16_def)

lemma slot_one_entry:
  "slot (L1 (one_entry_store v e) ''a'') ''a'' = Some \<lparr>nk = ''a'', nv = v, expireAt = e\<rparr>"
  by (simp add: slot_def L1_def shard_of_def hash_a one_entry_store_def one_entry_list_def at_def dec16_def)


lemma small_store_ok: "store_ok small_store"
  by (simp add: small_store_eq store_ok_def Create_1_ok)

lemma Set_expireAt_100: "Set_expireAt 100 = 10000000000000099"
  by (simp add: Set_expireAt_def wrap64_def)

lemma small_store_L2_dead: "\<not> live (L2 small_store ''a'') ''a''"
  by (simp add: small_store_eq L2_def shard_of_def hash_a Create_1 live_def slot_def)


section \<open>The clock updater and the group, step by step\<close>

lemma updater_after_11:
  "updater_after wall c0 11 = \<lparr>pc = Exited, clock = ((\<lambda>c. wrap64 (c + 100000000)) ^^ 9) (wall 0)\<rparr>"
  by (simp add: eval_nat_numeral updater_step_def)


lemma run_Cons: "run (i # sched) g = run sched (step i g)"
  by (simp add: run_def)

lemma run_Nil: "run [] g = g"
  by (simp add: run_def)

lemma run_append: "run (xs @ ys) g = run ys (run xs g)"
  by (simp add: run_def)

lemma Do_alone:
  assumes i: "i < length (threads g)" and t: "threads g ! i = caller Do_Load k fn"
    and free: "Mapping.lookup (gm g) k = None"
  shows "run (replicate 6 i) g =
           g\<lparr>gm := Mapping.delete k (Mapping.update k (length (calls g)) (gm g)),
             calls := calls g @ [\<lparr>cwg = 0, cval = fst (fst (fn (world g))), cerr = snd (fst (fn (world g)))\<rparr>],
             threads := (threads g)[i := \<lparr>tkey = k, tfn = fn, tpc = Finished, tc = length (calls g),
                                         tret = Some (fst (fn (world g)))\<rparr>],
             world := snd (fn (world g))\<rparr>"
  using assms
  by (simp add: eval_nat_numeral run_Cons run_Nil step_def caller_def cur_def new_call_def Let_def)

lemma DoV2_alone:
  assumes i: "i < length (threads g)" and t: "threads g ! i = caller V2_LoadOrStore k fn"
    and free: "Mapping.lookup (gm g) k = None"
  shows "run (replicate 5 i) g =
           g\<lparr>gm := Mapping.delete k (Mapping.update k (length (calls g)) (gm g)),
             calls := calls g @ [\<lparr>cwg = 0, cval = fst (fst (fn (world g))), cerr = snd (fst (fn (world g)))\<rparr>],
             threads := (threads g)[i := \<lparr>tkey = k, tfn = fn, tpc = Finished, tc = length (calls g),
                                         tret = Some (fst (fn (world g)))\<rparr>],
             world := snd (fn (world g))\<rparr>"
  using assms
  by (simp add: eval_nat_numeral run_Cons run_Nil step_def caller_def cur_def new_call_def Let_def)


lemma step_Finished:
  "i < length (threads g) \<Longrightarrow> tpc (threads g ! i) = Finished \<Longrightarrow> step i g = g"
  by (simp add: step_def Let_def)

lemma call_alone:
  assumes i: "i < length (threads g)" and t: "threads g ! i = caller entry k fn"
    and entry: "entry = Do_Load \<or> entry = V2_LoadOrStore"
    and free: "Mapping.lookup (gm g) k = None"
  shows "run (replicate 6 i) g =
           g\<lparr>gm := Mapping.delete k (Mapping.update k (length (calls g)) (gm g)),
             calls := calls g @ [\<lparr>cwg = 0, cval = fst (fst (fn (world g))), cerr = snd (fst (fn (world g)))\<rparr>],
             threads := (threads g)[i := \<lparr>tkey = k, tfn = fn, tpc = Finished, tc = length (calls g),
                                         tret = Some (fst (fn (world g)))\<rparr>],
             world := snd (fn (world g))\<rparr>"
proof (cases "entry = Do_Load")
  case True
  then show ?thesis using Do_alone[OF i _ free, of fn] t by simp
next
  case False
  then have v2: "threads g ! i = caller V2_LoadOrStore k fn" using entry t by simp
  have "replicate 6 i = replicate 5 i @ [i]"
    by (simp add: eval_nat_numeral replicate_app_Cons_same)
  then have "run (replicate 6 i) g = step i (run (replicate 5 i) g)"
    by (simp add: run_append run_Cons run_Nil)
  also have "\<dots> = run (replicate 5 i) g"
    using i by (intro step_Finished) (simp_all add: DoV2_alone[OF i v2 free])
  finally show ?thesis by (simp add: DoV2_alone[OF i v2 free])
qed


lemmas group_eval = run_Cons run_Nil step_def caller_def cur_def new_call_def Let_def
  lookup_update' lookup_delete_if


lemma DoV2_same_schedule_executes_once:
  "world (run alternating (two_callers V2_LoadOrStore)) = 1
   \<and> map tret (threads (run alternating (two_callers V2_LoadOrStore)))
       = [Some (Some 1, None), Some (Some 1, None)]"
  by (simp add: alternating_def two_callers_def counting_def group_eval)

section \<open>Invariants of the group under every schedule\<close>




























section \<open>Claims about the list\<close>

text \<open>
  C7. A \<open>put\<close> of a key that is not in the key map, on a list at full capacity, calls
  \<open>onEvicted\<close> exactly when the tail node it reclaims is live (\<open>expireAt > 0\<close>), once and
  with that node's prior key and value; a tombstoned tail is reused with no call. The
  new key is mapped to the reclaimed slot, which then holds the new value and expiry.
\<close>

theorem put_full_callback_iff_tail_live:
  assumes "cache_ok c" "Mapping.lookup (hmap c) key = None" "clast c = length (cm c)"
  shows "\<exists>c'. put c key val e (Some f) w =
             Some (c', (if expireAt (tail_node c) > 0
                        then f (nk (tail_node c)) (nv (tail_node c)) w else w), 1)
           \<and> Mapping.lookup (hmap c') key = Some (fst (dlnk c ! 0))
           \<and> (\<exists>n. slot c' key = Some n \<and> nv n = val \<and> expireAt n = e)"
  using put_reclaim[OF assms, of val e "Some f" w] by auto

theorem put_full_callback_iff_tail_live_witness:
  "cache_ok full_list \<and> Mapping.lookup (hmap full_list) ''b'' = None
   \<and> clast full_list = length (cm full_list)
   \<and> map_option (fst \<circ> snd) (put full_list ''b'' (Some 2) 9 (Some log_evict) []) = Some [(''a'', Some 1)]
   \<and> map_option (fst \<circ> snd)
        (put (full_list\<lparr>cm := [\<lparr>nk = ''a'', nv = Some 1, expireAt = 0\<rparr>]\<rparr>) ''b'' (Some 2) 9 (Some log_evict) [])
       = Some []"
proof -
  have ok: "cache_ok full_list"
    by (simp add: cache_ok_alt links_ok_def full_list_def lookup_update')
  have ok0: "cache_ok (full_list\<lparr>cm := [\<lparr>nk = ''a'', nv = Some 1, expireAt = 0\<rparr>]\<rparr>)"
    by (simp add: cache_ok_alt links_ok_def full_list_def lookup_update')
  have nb: "Mapping.lookup (hmap full_list) ''b'' = None"
    by (simp add: full_list_def)
  have full: "clast full_list = length (cm full_list)"
    by (simp add: full_list_def)
  have "map_option (fst \<circ> snd) (put full_list ''b'' (Some 2) 9 (Some log_evict) []) = Some [(''a'', Some 1)]"
    using put_full_callback_iff_tail_live[OF ok nb full, of "Some 2" 9 log_evict "[]"]
    by (auto simp: tail_node_def full_list_def log_evict_def)
  moreover have "map_option (fst \<circ> snd)
        (put (full_list\<lparr>cm := [\<lparr>nk = ''a'', nv = Some 1, expireAt = 0\<rparr>]\<rparr>) ''b'' (Some 2) 9 (Some log_evict) [])
       = Some []"
    using put_full_callback_iff_tail_live[OF ok0, of "''b''" "Some 2" 9 log_evict "[]"]
    by (auto simp: tail_node_def full_list_def log_evict_def)
  ultimately show ?thesis using ok nb full by simp
qed

section \<open>Claims about the store\<close>

text \<open>
  C6, as amended. \<open>Delete\<close> returns true exactly when the key is live in L1 or in L2 of
  its shard, and afterwards the key is live in neither. With a callback configured, the
  callback is called once when a live copy holds a non-nil value: with the value of the
  live L1 copy if that is not nil, else with the value of the live L2 copy; it is not
  called when no live copy holds a non-nil value, and so never for a key that is absent or
  already deleted.
\<close>

theorem Delete_reports_liveness:
  assumes "store_ok s"
  shows "\<exists>s'. Delete s key w =
            Some (s',
                  (case onEvicted s of
                     None \<Rightarrow> w
                   | Some f \<Rightarrow> (case evict_val s key of Some x \<Rightarrow> f key (Some x) w | None \<Rightarrow> w)),
                  live (L1 s key) key \<or> live (L2 s key) key)
          \<and> \<not> live (L1 s' key) key \<and> \<not> live (L2 s' key) key"
proof -
  note sh = store_shard[OF assms, of key]
  from delete_spec[OF sh, of key w] obtain c0' c1' where
    d: "delete s key (hashBKRD key AND smask s) w =
            Some (shard_upd s (hashBKRD key AND smask s) (c0', c1'),
                  (case onEvicted s of
                     None \<Rightarrow> w
                   | Some f \<Rightarrow>
                       (case (case live_val (L1 s key) key of Some x \<Rightarrow> Some x
                              | None \<Rightarrow> live_val (L2 s key) key) of
                          Some x \<Rightarrow> f key (Some x) w
                        | None \<Rightarrow> w)),
                  live (L1 s key) key \<or> live (L2 s key) key)"
    and dead: "\<not> live c0' key" "\<not> live c1' key" by blast
  show ?thesis
    unfolding Delete_def evict_val_def
    using d dead L_shard_upd[OF sh(1), of c0' c1'] by auto
qed

theorem Delete_reports_liveness_witness:
  "store_ok (one_entry_store (Some 7) 5)
   \<and> map_option snd (Delete (one_entry_store (Some 7) 5) ''a'' []) = Some ([(''a'', Some 7)], True)
   \<and> map_option snd (Delete (one_entry_store (Some 7) 0) ''a'' []) = Some ([], False)"
proof -
  have live: "live (L1 (one_entry_store v e) ''a'') ''a'' \<longleftrightarrow> e > 0"
    "\<not> live (L2 (one_entry_store v e) ''a'') ''a''"
    "evict_val (one_entry_store v e) ''a'' = (if e > 0 then v else None)" for v e
    by (simp_all add: evict_val_def live_val_def live_def slot_def L1_def L2_def shard_of_def hash_a
        one_entry_store_def one_entry_list_def Create_1 at_def dec16_def split: option.splits)
  have ev: "onEvicted (one_entry_store v e) = Some log_evict" for v e
    by (simp add: one_entry_store_def)
  have "map_option snd (Delete (one_entry_store (Some 7) 5) ''a'' []) = Some ([(''a'', Some 7)], True)"
    using Delete_reports_liveness[OF one_entry_store_ok, of "Some 7" 5 "''a''" "[]"]
    by (auto simp: live ev log_evict_def)
  moreover have "map_option snd (Delete (one_entry_store (Some 7) 0) ''a'' []) = Some ([], False)"
    using Delete_reports_liveness[OF one_entry_store_ok, of "Some 7" 0 "''a''" "[]"]
    by (auto simp: live ev log_evict_def)
  ultimately show ?thesis using one_entry_store_ok by simp
qed

text \<open>
  The claim as stated fails for a nil value: after \<open>Set\<close> of the key \<open>a\<close> with a nil value,
  \<open>Delete\<close> returns true and the callback is never called (its log stays empty), because
  \<open>delete\<close> guards the call by \<open>n1.v != nil\<close>.
\<close>

theorem delete_nil_value_counterexample: "delete_nil_run = Some ([], True)"
  by (simp add: delete_nil_run_def Set_def Set_small Delete_one_entry wrap64_def)



text \<open>
  C2. The claim: every \<open>SetWithExpiration\<close> stores a strictly positive \<open>expireAt\<close>, a zero
  expiration being stored as a large positive timestamp. The code stores \<open>expireAt = 0\<close>
  for a zero expiration, which is the mark of a tombstone: on the small store,
  \<open>SetWithExpiration\<close> of the key \<open>a\<close> with expiration 0 leaves a slot with \<open>expireAt = 0\<close>, and the
  \<open>Get\<close> that follows does not find the key.
\<close>

theorem zero_expiration_stores_tombstone: "zero_expiration_run = Some (Some 0, None, False)"
  by (simp add: zero_expiration_run_def Set_small Get_one_entry_dead slot_one_entry)


text \<open>
  C3. The claim: a \<open>Get\<close> of a key that is absent from L1 and present in L2 with an expiry
  that has passed deletes the key from both tiers and returns not-found. The code returns
  not-found and deletes nothing: \<open>_get\<close> already answers "absent" for an expired node, so
  the branch of \<open>Get\<close> that calls \<open>delete\<close> is not reached. On the small store, an entry that
  expires at 105 is promoted at time 101 and read at time 200: the read returns not-found,
  the key is still live in L2, \<open>Len\<close> still counts it and the callback was not called.
\<close>

theorem expired_l2_entry_not_deleted:
  "expired_l2_run = Some ((Some 7, True), (None, False), False, True, 1, [])"
  by (simp add: expired_l2_run_def Set_small Get_one_entry Get_two_tier_expired Len_two_tier
      live_two_tier wrap64_def)


text \<open>
  C10. There is a sequence \<open>Set(k, v); Get(k); Set(k, v')\<close>, with no expiry elapsing, after
  which the key is live in both L1 and L2 of its shard, and \<open>Len\<close> returns 2 although the
  two key maps hold the single key \<open>k\<close>.
\<close>

theorem key_live_in_both_tiers:
  "\<exists>s1 w1 s2 w2 r s3 w3.
     Set small_store ''a'' (Some 7) 100 [] = Some (s1, w1)
     \<and> Get s1 ''a'' 100 100 w1 = Some (s2, w2, r)
     \<and> Set s2 ''a'' (Some 8) 100 w2 = Some (s3, w3)
     \<and> live (L1 s3 ''a'') ''a'' \<and> live (L2 s3 ''a'') ''a''
     \<and> Mapping.keys (hmap (L1 s3 ''a'')) \<union> Mapping.keys (hmap (L2 s3 ''a'')) = {''a''}
     \<and> Len s3 = Some 2"
proof -
  let ?e = "10000000000000099 :: int"
  have 1: "Set small_store ''a'' (Some 7) 100 [] = Some (one_entry_store (Some 7) ?e, [])"
    by (simp add: Set_def Set_small wrap64_def)
  have 2: "Get (one_entry_store (Some 7) ?e) ''a'' 100 100 [] =
             Some (two_tier_store (Some 7) 0 (Some 7) ?e, [], Some 7, True)"
    by (simp add: Get_one_entry)
  have 3: "Set (two_tier_store (Some 7) 0 (Some 7) ?e) ''a'' (Some 8) 100 [] =
             Some (two_tier_store (Some 8) ?e (Some 7) ?e, [])"
    by (simp add: Set_def Set_two_tier wrap64_def)
  have 4: "Mapping.keys (hmap (L1 (two_tier_store (Some 8) ?e (Some 7) ?e) ''a''))
             \<union> Mapping.keys (hmap (L2 (two_tier_store (Some 8) ?e (Some 7) ?e) ''a'')) = {''a''}"
    by (simp add: L1_def L2_def shard_of_def hash_a two_tier_store_def one_entry_list_def)
  show ?thesis
    using 1 2 3 4 by (auto simp: live_two_tier Len_two_tier)
qed


text \<open>
  C5. \<open>Set\<close> writes into L1 only: the L2 list of every shard is as before. When the key
  was not live in L2 and the expiry that \<open>Set\<close> stores is positive, the key is live in L1
  and not in L2 right after the \<open>Set\<close>, and one \<open>Get\<close> before that expiry returns the value
  and leaves the key live in L2 and not in L1.
\<close>

theorem Set_L1_only_Get_promotes:
  assumes ok: "store_ok s"
  shows "\<exists>s1 w1. Set s k v now0 w = Some (s1, w1)
          \<and> map snd (caches s1) = map snd (caches s)
          \<and> (0 < Set_expireAt now0 \<and> \<not> live (L2 s k) k \<longrightarrow>
                live (L1 s1 k) k \<and> \<not> live (L2 s1 k) k
                \<and> (\<forall>now1 now2. now1 < Set_expireAt now0 \<and> now2 < Set_expireAt now0 \<longrightarrow>
                      (\<exists>s2 w2. Get s1 k now1 now2 w1 = Some (s2, w2, v, True)
                               \<and> \<not> live (L1 s2 k) k \<and> live (L2 s2 k) k)))"
proof -
  let ?i = "hashBKRD k AND smask s"
  note sh = store_shard[OF ok, of k]
  from Set_spec[OF ok, of k v now0 w] obtain c0' w1 n where
    set: "Set s k v now0 w = Some (shard_upd s ?i (c0', L2 s k), w1)"
    and c0': "cache_ok c0'" "slot c0' k = Some n" "nv n = v" "expireAt n = Set_expireAt now0"
    by blast
  let ?s1 = "shard_upd s ?i (c0', L2 s k)"
  have m1: "hashBKRD k AND smask ?s1 = ?i" by (simp add: shard_upd_fields)
  have sh1: "shard_at ?s1 ?i = Some (c0', L2 s k)" by (rule shard_at_upd[OF sh(1)])
  have L: "L1 ?s1 k = c0'" "L2 ?s1 k = L2 s k" using L_shard_upd[OF sh(1)] by simp_all
  have same: "map snd (caches ?s1) = map snd (caches s)" by (rule shard_upd_L2_same[OF sh(1)])
  have post: "live (L1 ?s1 k) k \<and> \<not> live (L2 ?s1 k) k
                \<and> (\<forall>now1 now2. now1 < Set_expireAt now0 \<and> now2 < Set_expireAt now0 \<longrightarrow>
                      (\<exists>s2 w2. Get ?s1 k now1 now2 w1 = Some (s2, w2, v, True)
                               \<and> \<not> live (L1 s2 k) k \<and> live (L2 s2 k) k))"
    if pos: "0 < Set_expireAt now0" and fresh: "\<not> live (L2 s k) k"
  proof (intro conjI allI impI)
    show "live (L1 ?s1 k) k" using L c0' pos by (simp add: live_def)
    show "\<not> live (L2 ?s1 k) k" using L fresh by simp
  next
    fix now1 now2
    assume t: "now1 < Set_expireAt now0 \<and> now2 < Set_expireAt now0"
    have sh1': "shard_at ?s1 (hashBKRD k AND smask ?s1) = Some (c0', L2 s k)"
      using sh1 m1 by simp
    from Get_promote[OF sh1' c0'(1) sh(3) c0'(2), of now1 now2 w1] pos t c0'(3,4)
    obtain a b w2 where
      g: "Get ?s1 k now1 now2 w1 = Some (shard_upd ?s1 (hashBKRD k AND smask ?s1) (a, b), w2, v, True)"
      and ab: "\<not> live a k" "live b k" by auto
    have "L1 (shard_upd ?s1 (hashBKRD k AND smask ?s1) (a, b)) k = a"
      "L2 (shard_upd ?s1 (hashBKRD k AND smask ?s1) (a, b)) k = b"
      using L_shard_upd[OF sh1', of a b] by simp_all
    then show "\<exists>s2 w2. Get ?s1 k now1 now2 w1 = Some (s2, w2, v, True)
                 \<and> \<not> live (L1 s2 k) k \<and> live (L2 s2 k) k"
      using g ab by auto
  qed
  show ?thesis using set same post by blast
qed


theorem Set_L1_only_Get_promotes_witness:
  "store_ok small_store \<and> 0 < Set_expireAt 100 \<and> \<not> live (L2 small_store ''a'') ''a''
   \<and> (100 :: int) < Set_expireAt 100
   \<and> (\<exists>s1 w1. Set small_store ''a'' (Some 7) 100 [] = Some (s1, w1)
         \<and> live (L1 s1 ''a'') ''a'' \<and> \<not> live (L2 s1 ''a'') ''a''
         \<and> (\<exists>s2 w2. Get s1 ''a'' 100 100 w1 = Some (s2, w2, Some 7, True)
               \<and> \<not> live (L1 s2 ''a'') ''a'' \<and> live (L2 s2 ''a'') ''a''))"
proof -
  have pos: "0 < Set_expireAt 100" and t: "(100 :: int) < Set_expireAt 100"
    by (simp_all add: Set_expireAt_100)
  from Set_L1_only_Get_promotes[OF small_store_ok, of "''a''" "Some 7" 100 "[]"]
  obtain s1 w1 where
    set: "Set small_store ''a'' (Some 7) 100 [] = Some (s1, w1)"
    and imp: "0 < Set_expireAt 100 \<and> \<not> live (L2 small_store ''a'') ''a'' \<longrightarrow>
                live (L1 s1 ''a'') ''a'' \<and> \<not> live (L2 s1 ''a'') ''a''
                \<and> (\<forall>now1 now2. now1 < Set_expireAt 100 \<and> now2 < Set_expireAt 100 \<longrightarrow>
                      (\<exists>s2 w2. Get s1 ''a'' now1 now2 w1 = Some (s2, w2, Some 7, True)
                               \<and> \<not> live (L1 s2 ''a'') ''a'' \<and> live (L2 s2 ''a'') ''a''))"
    by blast
  from imp pos small_store_L2_dead have
    l: "live (L1 s1 ''a'') ''a''" "\<not> live (L2 s1 ''a'') ''a''"
    and g: "\<forall>now1 now2. now1 < Set_expireAt 100 \<and> now2 < Set_expireAt 100 \<longrightarrow>
                      (\<exists>s2 w2. Get s1 ''a'' now1 now2 w1 = Some (s2, w2, Some 7, True)
                               \<and> \<not> live (L1 s2 ''a'') ''a'' \<and> live (L2 s2 ''a'') ''a'')"
    by blast+
  from g t have "\<exists>s2 w2. Get s1 ''a'' 100 100 w1 = Some (s2, w2, Some 7, True)
                               \<and> \<not> live (L1 s2 ''a'') ''a'' \<and> live (L2 s2 ''a'') ''a''"
    by blast
  then show ?thesis using small_store_ok pos t small_store_L2_dead set l by blast
qed


text \<open>
  C9. \<open>Set(k, v)\<close> followed by \<open>Get(k)\<close> before the stored expiry returns \<open>(v, true)\<close>,
  whatever has happened in the other shards in between: the \<open>Get\<close> may run on any store
  that agrees with the one the \<open>Set\<close> left on the shard of \<open>k\<close>.
\<close>

theorem Set_Get_round_trip:
  assumes ok: "store_ok s" and pos: "0 < Set_expireAt now0"
    and t: "now1 < Set_expireAt now0" "now2 < Set_expireAt now0"
  shows "\<exists>s1 w1. Set s k v now0 w = Some (s1, w1)
          \<and> (\<forall>s' w'. smask s' = smask s1 \<and> onEvicted s' = onEvicted s1
                     \<and> shard_at s' (hashBKRD k AND smask s1) = shard_at s1 (hashBKRD k AND smask s1)
                  \<longrightarrow> (\<exists>s2 w2. Get s' k now1 now2 w' = Some (s2, w2, v, True)))"
proof -
  let ?i = "hashBKRD k AND smask s"
  note sh = store_shard[OF ok, of k]
  from Set_spec[OF ok, of k v now0 w] obtain c0' w1 n where
    set: "Set s k v now0 w = Some (shard_upd s ?i (c0', L2 s k), w1)"
    and c0': "cache_ok c0'" "slot c0' k = Some n" "nv n = v" "expireAt n = Set_expireAt now0"
    by blast
  let ?s1 = "shard_upd s ?i (c0', L2 s k)"
  have m1: "hashBKRD k AND smask ?s1 = ?i" by (simp add: shard_upd_fields)
  have sh1: "shard_at ?s1 ?i = Some (c0', L2 s k)" by (rule shard_at_upd[OF sh(1)])
  have "\<exists>s2 w2. Get s' k now1 now2 w' = Some (s2, w2, v, True)"
    if a: "smask s' = smask ?s1" "onEvicted s' = onEvicted ?s1"
      "shard_at s' (hashBKRD k AND smask ?s1) = shard_at ?s1 (hashBKRD k AND smask ?s1)"
    for s' w'
  proof -
    have sh': "shard_at s' (hashBKRD k AND smask s') = Some (c0', L2 s k)"
      using a sh1 m1 by simp
    from Get_promote[OF sh' c0'(1) sh(3) c0'(2), of now1 now2 w'] pos t c0'(3,4)
    show ?thesis by auto
  qed
  then show ?thesis using set by blast
qed

theorem Set_Get_round_trip_witness:
  "store_ok small_store \<and> 0 < Set_expireAt 100 \<and> (100 :: int) < Set_expireAt 100
   \<and> (\<exists>s1 w1. Set small_store ''a'' (Some 7) 100 [] = Some (s1, w1)
         \<and> (\<exists>s2 w2. Get s1 ''a'' 100 100 w1 = Some (s2, w2, Some 7, True)))"
proof -
  have pos: "0 < Set_expireAt 100" and t: "(100 :: int) < Set_expireAt 100"
    by (simp_all add: Set_expireAt_100)
  from Set_Get_round_trip[OF small_store_ok pos t t, of "''a''" "Some 7" "[]"]
  obtain s1 w1 where
    set: "Set small_store ''a'' (Some 7) 100 [] = Some (s1, w1)"
    and g: "\<forall>s' w'. smask s' = smask s1 \<and> onEvicted s' = onEvicted s1
                     \<and> shard_at s' (hashBKRD ''a'' AND smask s1) = shard_at s1 (hashBKRD ''a'' AND smask s1)
                  \<longrightarrow> (\<exists>s2 w2. Get s' ''a'' 100 100 w' = Some (s2, w2, Some 7, True))"
    by blast
  from g have "\<exists>s2 w2. Get s1 ''a'' 100 100 w1 = Some (s2, w2, Some 7, True)" by blast
  then show ?thesis using small_store_ok pos t set by blast
qed


section \<open>Claims about the clock\<close>

text \<open>
  C4. The claim: the updater of the clock runs for the lifetime of the process and keeps
  advancing the timestamp. The goroutine has no outer loop: after its eleven steps
  (one calibration, nine increments of 100ms, one last sleep) it has returned, and from
  then on the clock keeps the value of the first wall-clock reading plus nine increments,
  whatever the wall clock shows later.
\<close>

theorem updater_exits_and_clock_freezes:
  "updater_after wall c0 (11 + n) = \<lparr>pc = Exited, clock = ((\<lambda>c. wrap64 (c + 100000000)) ^^ 9) (wall 0)\<rparr>"
proof (induction n)
  case 0
  show ?case using updater_after_11[of wall c0] by simp
next
  case (Suc n)
  have "updater_after wall c0 (11 + Suc n) =
          updater_step (wall (11 + n)) (updater_after wall c0 (11 + n))"
    by (simp only: add_Suc_right updater_after.simps)
  also have "\<dots> = \<lparr>pc = Exited, clock = ((\<lambda>c. wrap64 (c + 100000000)) ^^ 9) (wall 0)\<rparr>"
    by (simp only: Suc.IH) (simp add: updater_step_def)
  finally show ?case .
qed


section \<open>Claims about the deduplication group\<close>



text \<open>
  C1. The claim: when several callers invoke \<open>do\<close> for one key concurrently, with no call
  for the key in flight before, the computation runs exactly once and all callers return
  the same pair. \<open>Do\<close> checks the table with \<open>Load\<close> and registers with a separate \<open>Store\<close>:
  when two callers take turns, both find the table empty, both register and both run
  the computation, which so runs twice, and the callers return different values. (\<open>DoV2\<close>,
  which registers with \<open>LoadOrStore\<close>, runs it once under the same schedule.)
\<close>

theorem Do_race_executes_twice:
  "world (run alternating (two_callers Do_Load)) = 2
   \<and> map tret (threads (run alternating (two_callers Do_Load)))
       = [Some (Some 1, None), Some (Some 2, None)]"
  by (simp add: alternating_def two_callers_def counting_def group_eval)


end
